theory Spec2Isabelle
  imports Main "HOL-Library.AList" "HOL-Library.Char_ord" "HOL-Library.List_Lexorder"
begin

section \<open>The image orientation labeler (\<open>image-orientation-labeler/app.py\<close>)\<close>

text \<open>
  The labeler is a window (\<open>OrientationLabeler\<close>) whose methods run on the user-interface
  thread, and a background thread (\<open>ImageLoader\<close>) that decodes upcoming images and hands
  each one back through the queued signal \<open>image_ready\<close>. The embedding keeps the fields of
  both classes as records, turns every method into a function from state to state, and
  makes the scheduling explicit: one \<open>event\<close> is either an input of the user, one step of a
  loader thread, or the delivery of one queued signal.

  Conventions of the embedding.
  \<^item> A Python \<open>str\<close> is a \<open>string\<close>; a character stands for the code point of the same
    number, so file names range over the code points below 256.
  \<^item> \<open>current_index\<close>, \<open>loaded_up_to\<close> and the cache keys are naturals: the program
    assigns them \<open>0\<close> and only ever adds to them. The two subtractions of the source
    (\<open>current_index - 5\<close>, \<open>loaded_up_to - PREFETCH_COUNT // 2\<close>) are computed over the
    integers, as Python does.
  \<^item> The dictionaries \<open>results\<close> and \<open>cache\<close> are association lists in insertion order
    (the order of a Python \<open>dict\<close>); \<open>d[k] = v\<close> is \<open>AList.update\<close>, \<open>del d[k]\<close> is
    \<open>AList.delete\<close>.
  \<^item> \<open>image_folder\<close> is a string; the initial \<open>None\<close> is the empty string, which
    \<open>load_folder\<close> never stores.
  \<^item> A \<open>QPixmap\<close> is its provenance: null, decoded from a path, or decoded and scaled.
    Whether a path decodes is read from the field \<open>disk\<close> of the state, which no method
    changes.
\<close>

subsection \<open>Pixmaps and paths\<close>

datatype qpixmap = Null | Decoded string | Scaled string

definition isNull :: "qpixmap \<Rightarrow> bool" where
  "isNull p = (p = Null)"

text \<open>\<open>QPixmap(path)\<close>: the decoded image, or a null pixmap when the file cannot be read.\<close>

definition QPixmap :: "(string \<Rightarrow> bool) \<Rightarrow> string \<Rightarrow> qpixmap" where
  "QPixmap dsk path = (if dsk path then Decoded path else Null)"

text \<open>
  \<open>pixmap.scaled(780, 430, KeepAspectRatio, SmoothTransformation)\<close>; Qt returns a null
  pixmap for a null pixmap and raises nothing.
\<close>

fun scaled :: "qpixmap \<Rightarrow> qpixmap" where
  "scaled Null = Null"
| "scaled (Decoded p) = Scaled p"
| "scaled (Scaled p) = Scaled p"

definition startswith :: "string \<Rightarrow> string \<Rightarrow> bool" where
  "startswith s pre = (take (length pre) s = pre)"

definition endswith :: "string \<Rightarrow> string \<Rightarrow> bool" where
  "endswith s suf = (length suf \<le> length s \<and> drop (length s - length suf) s = suf)"

text \<open>\<open>os.path.join(a, b)\<close> of \<open>posixpath\<close>, for two components.\<close>

definition os_path_join :: "string \<Rightarrow> string \<Rightarrow> string" where
  "os_path_join a b =
     (if startswith b ''/'' then b
      else if a = [] \<or> endswith a ''/'' then a @ b
      else a @ ''/'' @ b)"

text \<open>
  \<open>str.lower()\<close> on the code points below 256: \<open>A\<close>..\<open>Z\<close> and the capital letters
  U+00C0..U+00DE (the multiplication sign U+00D7 apart) move up by 32.
\<close>

definition lower_char :: "char \<Rightarrow> char" where
  "lower_char c =
     (let n = (of_char c :: nat)
      in if (65 \<le> n \<and> n \<le> 90) \<or> (192 \<le> n \<and> n \<le> 222 \<and> n \<noteq> 215)
         then char_of (n + 32) else c)"

definition lower :: "string \<Rightarrow> string" where
  "lower s = map lower_char s"

definition extensions :: "string list" where
  "extensions = [''.png'', ''.jpg'', ''.jpeg'', ''.gif'', ''.bmp'', ''.tiff'', ''.tif'']"

text \<open>\<open>f.lower().endswith(extensions)\<close>: a tuple argument matches when any member does.\<close>

definition recognized :: "string \<Rightarrow> bool" where
  "recognized f = list_ex (endswith (lower f)) extensions"

subsection \<open>\<open>json.dump(results, f, indent=2)\<close> for a dictionary of strings\<close>

definition hex_digit :: "nat \<Rightarrow> char" where
  "hex_digit n = ''0123456789abcdef'' ! (n mod 16)"

text \<open>
  \<open>json.encoder.py_encode_basestring_ascii\<close>: backslash, the double quote and every
  character outside \<open>' '\<close>..\<open>'~'\<close> are escaped, the five named control characters by
  their short form, the others as \<open>\u00XX\<close>.
\<close>

definition escape_char :: "char \<Rightarrow> string" where
  "escape_char c =
     (let n = (of_char c :: nat)
      in if n = 92 then [CHR 0x5C, CHR 0x5C]
         else if n = 34 then [CHR 0x5C, CHR 0x22]
         else if n = 8 then [CHR 0x5C, CHR ''b'']
         else if n = 12 then [CHR 0x5C, CHR ''f'']
         else if n = 10 then [CHR 0x5C, CHR ''n'']
         else if n = 13 then [CHR 0x5C, CHR ''r'']
         else if n = 9 then [CHR 0x5C, CHR ''t'']
         else if 32 \<le> n \<and> n \<le> 126 then [c]
         else [CHR 0x5C, CHR ''u'', CHR ''0'', CHR ''0'', hex_digit (n div 16), hex_digit n])"

definition encode_basestring_ascii :: "string \<Rightarrow> string" where
  "encode_basestring_ascii s = [CHR 0x22] @ concat (map escape_char s) @ [CHR 0x22]"

definition newline_indent :: string where
  "newline_indent = [CHR 0x0A] @ replicate 2 CHR '' ''"

definition item_separator :: string where
  "item_separator = '','' @ newline_indent"

definition key_separator :: string where
  "key_separator = '': ''"

text \<open>
  The loop of \<open>_iterencode_dict\<close> over the items, in the dictionary's order; the flag is
  the variable \<open>first\<close>.
\<close>

fun iterencode_items :: "bool \<Rightarrow> (string \<times> string) list \<Rightarrow> string list" where
  "iterencode_items first [] = []"
| "iterencode_items first ((k, v) # kvs) =
     (if first then [] else [item_separator])
     @ [encode_basestring_ascii k, key_separator, encode_basestring_ascii v]
     @ iterencode_items False kvs"

definition iterencode_dict :: "(string \<times> string) list \<Rightarrow> string list" where
  "iterencode_dict dct =
     (if dct = [] then [''{}'']
      else [''{'', newline_indent] @ iterencode_items True dct @ [[CHR 0x0A], ''}''])"

definition json_dump :: "(string \<times> string) list \<Rightarrow> string" where
  "json_dump dct = concat (iterencode_dict dct)"

subsection \<open>The loader thread\<close>

definition PREFETCH_COUNT :: nat where
  "PREFETCH_COUNT = 20"

text \<open>
  Where the thread of a loader stands: \<open>AtCheck i\<close> is the head of the iteration for
  index \<open>i\<close> of the \<open>for\<close> loop of \<open>run\<close> (the range test and the test of \<open>self.running\<close> are
  still to come), \<open>Decoding i name\<close> is past both tests with \<open>img_name\<close> read, and \<open>Finished\<close>
  is after \<open>run\<close> has returned. \<open>QThread.isRunning()\<close> holds in the first two.
\<close>

datatype thread_state = AtCheck nat | Decoding nat string | Finished

record ImageLoader =
  ld_images :: "string list"
  ld_folder :: string
  start_index :: nat
  running :: bool
  thread :: thread_state

type_synonym signal = "nat \<times> qpixmap"

definition isRunning :: "ImageLoader \<Rightarrow> bool" where
  "isRunning l = (thread l \<noteq> Finished)"

definition stop :: "ImageLoader \<Rightarrow> ImageLoader" where
  "stop l = l\<lparr>running := False\<rparr>"

text \<open>The end of \<open>range(start_index, min(start_index + PREFETCH_COUNT, len(images)))\<close>.\<close>

definition range_end :: "ImageLoader \<Rightarrow> nat" where
  "range_end l = min (start_index l + PREFETCH_COUNT) (length (ld_images l))"

text \<open>
  One step of the thread: from the head of an iteration to the decode, or through the
  decode and the \<open>emit\<close>. It returns the signals emitted (none or one).
\<close>

definition loader_step :: "(string \<Rightarrow> bool) \<Rightarrow> ImageLoader \<Rightarrow> signal list \<times> ImageLoader" where
  "loader_step dsk l =
     (case thread l of
        AtCheck i \<Rightarrow>
          if i < range_end l then
            (if \<not> running l then ([], l\<lparr>thread := Finished\<rparr>)
             else ([], l\<lparr>thread := Decoding i (ld_images l ! i)\<rparr>))
          else ([], l\<lparr>thread := Finished\<rparr>)
      | Decoding i img_name \<Rightarrow>
          (let img_path = os_path_join (ld_folder l) img_name;
               pixmap = QPixmap dsk img_path
           in if \<not> isNull pixmap
              then ([(i, scaled pixmap)], l\<lparr>thread := AtCheck (Suc i)\<rparr>)
              else ([], l\<lparr>thread := AtCheck (Suc i)\<rparr>))
      | Finished \<Rightarrow> ([], l))"

text \<open>What is left of the loop, as a number that every step lowers.\<close>

definition remaining :: "ImageLoader \<Rightarrow> nat" where
  "remaining l =
     (case thread l of
        AtCheck i \<Rightarrow> 2 * (range_end l - i) + 1
      | Decoding i img_name \<Rightarrow> 2 * (range_end l - Suc i) + 2
      | Finished \<Rightarrow> 0)"

text \<open>
  \<open>QThread.wait()\<close>: the caller blocks until \<open>run\<close> has returned; the signals emitted
  meanwhile are queued.
\<close>

function wait :: "(string \<Rightarrow> bool) \<Rightarrow> ImageLoader \<Rightarrow> signal list \<times> ImageLoader" where
  "wait dsk l =
     (if thread l = Finished then ([], l)
      else (let (sigs, l') = loader_step dsk l;
                (sigs', l'') = wait dsk l'
            in (sigs @ sigs', l'')))"
  by pat_completeness auto
termination
proof (relation "measure (\<lambda>(dsk, l). remaining l)")
  show "wf (measure (\<lambda>(dsk, l). remaining l))" by simp
next
  fix dsk l x sigs l'
  assume a: "thread l \<noteq> Finished" "x = loader_step dsk l" "(sigs, l') = x"
  from a have l': "l' = snd (loader_step dsk l)" by (metis snd_conv)
  from a(1) have "remaining (snd (loader_step dsk l)) < remaining l"
    by (cases "thread l")
       (auto simp: loader_step_def remaining_def range_end_def Let_def split: if_splits)
  with l' show "((dsk, l'), (dsk, l)) \<in> measure (\<lambda>(dsk, l). remaining l)"
    by simp
qed

declare wait.simps [simp del]

subsection \<open>The window and its methods\<close>

text \<open>
  The fields of \<open>OrientationLabeler\<close>, the state of the widgets the methods write, and the
  surroundings of the window: \<open>retired\<close> holds the loader objects that \<open>self.loader\<close> no
  longer refers to, \<open>pending\<close> the \<open>image_ready\<close> signals emitted and not yet delivered to
  \<open>on_image_loaded\<close>, \<open>written\<close> the files written so far (path and text), and \<open>disk\<close>
  tells which paths decode. The text of \<open>progress_label\<close> is kept as the three numbers
  that the format string of \<open>update_progress\<close> prints, \<open>None\<close> for the empty text; the
  pixmap of \<open>image_label\<close> is \<open>None\<close> when the label shows none.
\<close>

record labeler =
  images :: "string list"
  current_index :: nat
  results :: "(string \<times> string) list"
  image_folder :: string
  cache :: "(nat \<times> qpixmap) list"
  loaded_up_to :: nat
  loader :: "ImageLoader option"
  image_label :: "qpixmap option"
  name_label :: string
  progress_label :: "(nat \<times> nat \<times> nat) option"
  status_label :: string
  portrait_btn :: bool
  landscape_btn :: bool
  retired :: "ImageLoader list"
  pending :: "signal list"
  written :: "(string \<times> string) list"
  disk :: "string \<Rightarrow> bool"

text \<open>\<open>__init__\<close> and \<open>setup_ui\<close>: the window before any folder is loaded.\<close>

definition init :: "(string \<Rightarrow> bool) \<Rightarrow> labeler" where
  "init dsk =
     \<lparr>images = [], current_index = 0, results = [], image_folder = [], cache = [],
      loaded_up_to = 0, loader = None, image_label = None, name_label = [],
      progress_label = None, status_label = ''Press P for Portrait, L for Landscape'',
      portrait_btn = False, landscape_btn = False, retired = [], pending = [],
      written = [], disk = dsk\<rparr>"

text \<open>
  The path \<open>Path(__file__).parent.parent.parent / "data" / "orientations.json"\<close>, written
  from the directory three levels above the script.
\<close>

definition output_path :: string where
  "output_path = ''data/orientations.json''"

definition update_progress :: "labeler \<Rightarrow> labeler" where
  "update_progress s =
     (let cached = length (filter (\<lambda>k. k \<ge> current_index s) (map fst (cache s)))
      in s\<lparr>progress_label := Some (current_index s + 1, length (images s), cached)\<rparr>)"

definition cleanup_cache :: "labeler \<Rightarrow> labeler" where
  "cleanup_cache s =
     (let old_keys = filter (\<lambda>k. int k < int (current_index s) - 5) (map fst (cache s))
      in s\<lparr>cache := fold AList.delete old_keys (cache s)\<rparr>)"

text \<open>
  \<open>start_preload\<close>: a loader that is still running is stopped and waited for; the signals
  it emits before it returns join the queue. The loader object that \<open>self.loader\<close> held
  is kept among the retired ones, and the new loader is created and started.
\<close>

definition start_preload :: "nat \<Rightarrow> labeler \<Rightarrow> labeler" where
  "start_preload from_index s =
     (let s1 = (case loader s of
                  None \<Rightarrow> s
                | Some l \<Rightarrow>
                    if isRunning l
                    then (let (sigs, l') = wait (disk s) (stop l)
                          in s\<lparr>pending := pending s @ sigs, retired := retired s @ [l']\<rparr>)
                    else s\<lparr>retired := retired s @ [l]\<rparr>);
          new = \<lparr>ld_images = images s1, ld_folder = image_folder s1,
                 start_index = from_index, running = True, thread = AtCheck from_index\<rparr>
      in s1\<lparr>loader := Some new, loaded_up_to := from_index + PREFETCH_COUNT\<rparr>)"

definition on_image_loaded :: "nat \<Rightarrow> qpixmap \<Rightarrow> labeler \<Rightarrow> labeler" where
  "on_image_loaded index pixmap s =
     (let s1 = s\<lparr>cache := AList.update index pixmap (cache s)\<rparr>;
          s2 = (if index = current_index s1 \<and> image_label s1 = None
                then s1\<lparr>image_label := Some pixmap\<rparr> else s1)
      in update_progress s2)"

definition finish :: "labeler \<Rightarrow> labeler" where
  "finish s =
     (let s1 = (case loader s of None \<Rightarrow> s | Some l \<Rightarrow> s\<lparr>loader := Some (stop l)\<rparr>);
          s2 = s1\<lparr>image_label := None, name_label := ''All done!'', progress_label := None,
                  portrait_btn := False, landscape_btn := False\<rparr>;
          s3 = s2\<lparr>written := written s2 @ [(output_path, json_dump (results s2))]\<rparr>
      in s3\<lparr>status_label := ''Saved to: '' @ output_path\<rparr>)"

definition show_current_image :: "labeler \<Rightarrow> labeler" where
  "show_current_image s =
     (if current_index s \<ge> length (images s) then finish s
      else
        (let img_name = images s ! current_index s;
             s1 = update_progress (s\<lparr>name_label := img_name\<rparr>);
             s2 = (case map_of (cache s1) (current_index s1) of
                     Some pixmap \<Rightarrow> s1\<lparr>image_label := Some pixmap\<rparr>
                   | None \<Rightarrow>
                       (let s1a = s1\<lparr>image_label := None, status_label := ''Loading...''\<rparr>;
                            img_path = os_path_join (image_folder s1a) img_name;
                            pixmap = QPixmap (disk s1a) img_path
                        in s1a\<lparr>image_label := Some (scaled pixmap),
                                status_label := ''Press P for Portrait, L for Landscape''\<rparr>));
             s3 = (if int (current_index s2) \<ge> int (loaded_up_to s2) - int (PREFETCH_COUNT div 2)
                   then start_preload (loaded_up_to s2) s2 else s2)
         in cleanup_cache s3))"

definition label_image :: "string \<Rightarrow> labeler \<Rightarrow> labeler" where
  "label_image orientation s =
     (if images s = [] \<or> current_index s \<ge> length (images s) then s
      else
        (let img_name = images s ! current_index s;
             s1 = s\<lparr>results := AList.update img_name orientation (results s)\<rparr>;
             s2 = s1\<lparr>current_index := current_index s1 + 1\<rparr>
         in show_current_image s2))"

text \<open>
  \<open>load_folder\<close>: \<open>folder\<close> is what the file dialog returns (empty when it is cancelled)
  and \<open>listing\<close> is \<open>os.listdir(folder)\<close>.
\<close>

definition load_folder :: "string \<Rightarrow> string list \<Rightarrow> labeler \<Rightarrow> labeler" where
  "load_folder folder listing s =
     (if folder = [] then s
      else
        (let s1 = s\<lparr>image_folder := folder, images := [], cache := [], loaded_up_to := 0\<rparr>;
             s2 = s1\<lparr>images := filter recognized (sort listing)\<rparr>
         in if images s2 = [] then s2\<lparr>name_label := ''No images found in folder''\<rparr>
            else
              (let s3 = s2\<lparr>current_index := 0, results := [],
                           portrait_btn := True, landscape_btn := True\<rparr>
               in show_current_image (start_preload 0 s3))))"

definition keyPressEvent :: "string \<Rightarrow> labeler \<Rightarrow> labeler" where
  "keyPressEvent text s =
     (let key = lower text
      in if key = ''p'' then label_image ''portrait'' s
         else if key = ''l'' then label_image ''landscape'' s
         else s)"

definition closeEvent :: "labeler \<Rightarrow> labeler" where
  "closeEvent s =
     (case loader s of
        None \<Rightarrow> s
      | Some l \<Rightarrow>
          (let (sigs, l') = wait (disk s) (stop l)
           in s\<lparr>loader := Some l', pending := pending s @ sigs\<rparr>))"

subsection \<open>Scheduling\<close>

text \<open>
  What can happen next: the user picks a folder, clicks a button (a disabled button sends
  no click), presses a key or closes the window; the thread of the current loader or of
  a retired one takes a step; the event loop delivers the oldest queued signal to
  \<open>on_image_loaded\<close>.
\<close>

datatype event =
    LoadFolder string "string list"
  | PortraitClicked
  | LandscapeClicked
  | KeyPress string
  | CloseWindow
  | LoaderRuns
  | RetiredRuns nat
  | Deliver

definition step :: "event \<Rightarrow> labeler \<Rightarrow> labeler" where
  "step e s =
     (case e of
        LoadFolder folder listing \<Rightarrow> load_folder folder listing s
      | PortraitClicked \<Rightarrow> if portrait_btn s then label_image ''portrait'' s else s
      | LandscapeClicked \<Rightarrow> if landscape_btn s then label_image ''landscape'' s else s
      | KeyPress text \<Rightarrow> keyPressEvent text s
      | CloseWindow \<Rightarrow> closeEvent s
      | LoaderRuns \<Rightarrow>
          (case loader s of
             None \<Rightarrow> s
           | Some l \<Rightarrow>
               (let (sigs, l') = loader_step (disk s) l
                in s\<lparr>loader := Some l', pending := pending s @ sigs\<rparr>))
      | RetiredRuns k \<Rightarrow>
          (if k < length (retired s)
           then (let (sigs, l') = loader_step (disk s) (retired s ! k)
                 in s\<lparr>retired := (retired s)[k := l'], pending := pending s @ sigs\<rparr>)
           else s)
      | Deliver \<Rightarrow>
          (case pending s of
             [] \<Rightarrow> s
           | (index, pixmap) # rest \<Rightarrow> on_image_loaded index pixmap (s\<lparr>pending := rest\<rparr>)))"

definition run :: "event list \<Rightarrow> labeler \<Rightarrow> labeler" where
  "run evs s = fold step evs s"

text \<open>The loader objects there are, and how many of their threads are running.\<close>

definition all_loaders :: "labeler \<Rightarrow> ImageLoader list" where
  "all_loaders s = (case loader s of None \<Rightarrow> [] | Some l \<Rightarrow> [l]) @ retired s"

definition running_loaders :: "labeler \<Rightarrow> nat" where
  "running_loaders s = length (filter isRunning (all_loaders s))"

subsection \<open>Reading a schedule\<close>

text \<open>
  The orientation an event passes to \<open>label_image\<close>, if it calls it: the two buttons, and
  the keys whose lower-cased text is \<open>p\<close> or \<open>l\<close>. \<open>labels_of\<close> lists, in order, the
  orientations of the calls a schedule makes.
\<close>

fun label_of :: "event \<Rightarrow> string option" where
  "label_of PortraitClicked = Some ''portrait''"
| "label_of LandscapeClicked = Some ''landscape''"
| "label_of (KeyPress t) =
     (if lower t = ''p'' then Some ''portrait''
      else if lower t = ''l'' then Some ''landscape'' else None)"
| "label_of e = None"

definition labels_of :: "event list \<Rightarrow> string list" where
  "labels_of evs = List.map_filter label_of evs"

fun is_load :: "event \<Rightarrow> bool" where
  "is_load (LoadFolder folder listing) = True"
| "is_load e = False"

text \<open>
  A session in progress: some images, all different, the cursor within range, one label
  for each image before the cursor and in their order, and both buttons enabled while an
  image is presented.
\<close>

definition labelling :: "labeler \<Rightarrow> bool" where
  "labelling s =
     (images s \<noteq> [] \<and> distinct (images s) \<and> current_index s \<le> length (images s)
      \<and> map fst (results s) = take (current_index s) (images s)
      \<and> (current_index s < length (images s) \<longrightarrow> portrait_btn s \<and> landscape_btn s))"

text \<open>A schedule within one session: no folder is loaded in it.\<close>

definition in_session :: "event list \<Rightarrow> bool" where
  "in_session evs = list_all (\<lambda>e. \<not> is_load e) evs"

text \<open>
  The window holds a loader, and once the cursor has reached the end that loader has been
  told to stop.
\<close>

definition supervised :: "labeler \<Rightarrow> bool" where
  "supervised s =
     (case loader s of
        None \<Rightarrow> False
      | Some l \<Rightarrow> length (images s) \<le> current_index s \<longrightarrow> \<not> running l)"

text \<open>
  The text the output is expected to be: a flat object, one item to a line behind two
  spaces, the lines joined by a comma, in the order of the items given.
\<close>

definition item_text :: "string \<times> string \<Rightarrow> string" where
  "item_text kv =
     replicate 2 CHR '' '' @ encode_basestring_ascii (fst kv) @ '': ''
     @ encode_basestring_ascii (snd kv)"

fun str_join :: "string \<Rightarrow> string list \<Rightarrow> string" where
  "str_join sep [] = []"
| "str_join sep [x] = x"
| "str_join sep (x # y # ys) = x @ sep @ str_join sep (y # ys)"

definition flat_json_object :: "(string \<times> string) list \<Rightarrow> string" where
  "flat_json_object kvs =
     (if kvs = [] then ''{}''
      else ''{'' @ [CHR 0x0A] @ str_join ('','' @ [CHR 0x0A]) (map item_text kvs)
           @ [CHR 0x0A] @ ''}'')"

text \<open>
  The progress surface: the number of cached entries at or after an index, and the three
  numbers on display when they are up to date.
\<close>

definition count_at_or_after :: "nat \<Rightarrow> (nat \<times> qpixmap) list \<Rightarrow> nat" where
  "count_at_or_after i c = length (filter (\<lambda>p. i \<le> fst p) c)"

definition surface :: "labeler \<Rightarrow> nat \<times> nat \<times> nat" where
  "surface s =
     (current_index s + 1, length (images s), count_at_or_after (current_index s) (cache s))"

text \<open>No retired loader has a running thread.\<close>

definition retired_done :: "labeler \<Rightarrow> bool" where
  "retired_done s = list_all (\<lambda>l. \<not> isRunning l) (retired s)"

text \<open>
  The window holds a loader for the last window of indices asked for, over the sequence
  and folder on display, and \<open>loaded_up_to\<close> is the end of the window that the policy of
  \<open>show_current_image\<close> has reached for the item presented last.
\<close>

definition covering :: "labeler \<Rightarrow> bool" where
  "covering s =
     (case loader s of
        None \<Rightarrow> False
      | Some l \<Rightarrow>
          start_index l + PREFETCH_COUNT = loaded_up_to s
          \<and> ld_images l = images s \<and> ld_folder l = image_folder s
          \<and> loaded_up_to s =
              PREFETCH_COUNT *
                ((min (current_index s) (length (images s) - 1) + PREFETCH_COUNT div 2)
                   div PREFETCH_COUNT + 1))"

subsection \<open>Reading a JSON text back\<close>

text \<open>
  A reader for the JSON grammar of RFC 8259, restricted to objects whose values are
  strings. It is written from the grammar, not from the encoder: a string is a double
  quote, then characters up to the closing quote, where a backslash introduces one of the
  escapes \<open>\" \\ \/ \b \f \n \r \t \uXXXX\<close> and a raw control character is not allowed;
  insignificant white space is a space, a tab, a line feed or a carriage return. A code
  point of 256 or more has no character here and is refused.
\<close>

definition hex_value :: "char \<Rightarrow> nat option" where
  "hex_value c =
     (let n = (of_char c :: nat)
      in if 48 \<le> n \<and> n \<le> 57 then Some (n - 48)
         else if 97 \<le> n \<and> n \<le> 102 then Some (n - 87)
         else if 65 \<le> n \<and> n \<le> 70 then Some (n - 55)
         else None)"

definition hex4 :: "char \<Rightarrow> char \<Rightarrow> char \<Rightarrow> char \<Rightarrow> nat option" where
  "hex4 a b c d =
     (case (hex_value a, hex_value b, hex_value c, hex_value d) of
        (Some x, Some y, Some z, Some w) \<Rightarrow> Some (((x * 16 + y) * 16 + z) * 16 + w)
      | _ \<Rightarrow> None)"

definition short_escape :: "char \<Rightarrow> char option" where
  "short_escape e =
     (if e = CHR 0x22 then Some (CHR 0x22)
      else if e = CHR 0x5C then Some (CHR 0x5C)
      else if e = CHR ''/'' then Some (CHR ''/'')
      else if e = CHR ''b'' then Some (CHR 0x08)
      else if e = CHR ''f'' then Some (CHR 0x0C)
      else if e = CHR ''n'' then Some (CHR 0x0A)
      else if e = CHR ''r'' then Some (CHR 0x0D)
      else if e = CHR ''t'' then Some (CHR 0x09)
      else None)"

definition put_char :: "char \<Rightarrow> (string \<times> string) option \<Rightarrow> (string \<times> string) option" where
  "put_char c r = (case r of None \<Rightarrow> None | Some (s, rest) \<Rightarrow> Some (c # s, rest))"

text \<open>
  The characters of a string after its opening quote: the string read and the text that
  follows its closing quote.
\<close>

fun read_chars :: "string \<Rightarrow> (string \<times> string) option" where
  "read_chars [] = None"
| "read_chars [c] = (if c = CHR 0x22 then Some ([], []) else None)"
| "read_chars (c # e # cs) =
     (if c = CHR 0x22 then Some ([], e # cs)
      else if c = CHR 0x5C then
        (if e = CHR ''u'' then
           (case cs of
              h1 # h2 # h3 # h4 # cs' \<Rightarrow>
                (case hex4 h1 h2 h3 h4 of
                   None \<Rightarrow> None
                 | Some n \<Rightarrow> if n < 256 then put_char (char_of n) (read_chars cs') else None)
            | _ \<Rightarrow> None)
         else (case short_escape e of
                 None \<Rightarrow> None
               | Some d \<Rightarrow> put_char d (read_chars cs)))
      else if (of_char c :: nat) < 32 then None
      else put_char c (read_chars (e # cs)))"

definition read_string :: "string \<Rightarrow> (string \<times> string) option" where
  "read_string inp =
     (case inp of [] \<Rightarrow> None | c # cs \<Rightarrow> if c = CHR 0x22 then read_chars cs else None)"

definition is_ws :: "char \<Rightarrow> bool" where
  "is_ws c = (c = CHR '' '' \<or> c = CHR 0x09 \<or> c = CHR 0x0A \<or> c = CHR 0x0D)"

definition skip_ws :: "string \<Rightarrow> string" where
  "skip_ws inp = dropWhile is_ws inp"

text \<open>One member \<open>string : string\<close>, with the white space around its parts.\<close>

definition read_member :: "string \<Rightarrow> ((string \<times> string) \<times> string) option" where
  "read_member inp =
     (case read_string (skip_ws inp) of
        None \<Rightarrow> None
      | Some (k, r1) \<Rightarrow>
          (case skip_ws r1 of
             [] \<Rightarrow> None
           | c # r2 \<Rightarrow>
               if c = CHR '':'' then
                 (case read_string (skip_ws r2) of
                    None \<Rightarrow> None
                  | Some (v, r3) \<Rightarrow> Some ((k, v), skip_ws r3))
               else None))"

text \<open>
  The members after the first, up to the closing brace; the number bounds how many
  members are read, and \<open>read_object\<close> passes the length of the text.
\<close>

fun read_more :: "nat \<Rightarrow> string \<Rightarrow> ((string \<times> string) list \<times> string) option" where
  "read_more n [] = None"
| "read_more 0 (c # inp) = (if c = CHR ''}'' then Some ([], inp) else None)"
| "read_more (Suc n) (c # inp) =
     (if c = CHR ''}'' then Some ([], inp)
      else if c = CHR '','' then
        (case read_member inp of
           None \<Rightarrow> None
         | Some (kv, rest) \<Rightarrow>
             (case read_more n rest of
                None \<Rightarrow> None
              | Some (kvs, rest') \<Rightarrow> Some (kv # kvs, rest')))
      else None)"

text \<open>
  A whole text: an object of string members and nothing but white space after it. The
  members come back in the order of the text.
\<close>

definition read_object :: "string \<Rightarrow> (string \<times> string) list option" where
  "read_object inp =
     (case skip_ws inp of
        [] \<Rightarrow> None
      | c # r0 \<Rightarrow>
          if c = CHR ''{'' then
            (case skip_ws r0 of
               [] \<Rightarrow> None
             | d # r1 \<Rightarrow>
                 if d = CHR ''}'' then (if skip_ws r1 = [] then Some [] else None)
                 else
                   (case read_member (d # r1) of
                      None \<Rightarrow> None
                    | Some (kv, rest) \<Rightarrow>
                        (case read_more (length inp) rest of
                           None \<Rightarrow> None
                         | Some (kvs, rest') \<Rightarrow>
                             if skip_ws rest' = [] then Some (kv # kvs) else None)))
          else None)"

text \<open>
  What the reader needs of the escape of one character: a character standing for itself
  that is neither a quote, a backslash nor a control character; a short escape that
  \<open>short_escape\<close> reads back; or a \<open>\u\<close> escape whose four digits are the code point.
\<close>

definition escape_reads_back :: "char \<Rightarrow> bool" where
  "escape_reads_back c =
     (let e = escape_char c
      in (e = [c] \<and> c \<noteq> CHR 0x22 \<and> c \<noteq> CHR 0x5C \<and> \<not> (of_char c :: nat) < 32)
         \<or> (e = [CHR 0x5C, e ! 1] \<and> e ! 1 \<noteq> CHR ''u'' \<and> short_escape (e ! 1) = Some c)
         \<or> (e = [CHR 0x5C, CHR ''u'', e ! 2, e ! 3, e ! 4, e ! 5]
              \<and> hex4 (e ! 2) (e ! 3) (e ! 4) (e ! 5) = Some (of_char c)))"

text \<open>
  What a session on one folder keeps true of prefetching. A signal for an index is sound
  when the index is in range, the file of that item decodes and the pixmap is the scaled
  decode of that file; a loader is sound when it works on the sequence and folder on
  display and, while decoding, holds the name of the item at its index.
\<close>

definition sig_ok :: "(string \<Rightarrow> bool) \<Rightarrow> string \<Rightarrow> string list \<Rightarrow> signal \<Rightarrow> bool" where
  "sig_ok dsk folder imgs sg =
     (fst sg < length imgs \<and> dsk (os_path_join folder (imgs ! fst sg))
      \<and> snd sg = Scaled (os_path_join folder (imgs ! fst sg)))"

definition loader_ok :: "string \<Rightarrow> string list \<Rightarrow> ImageLoader \<Rightarrow> bool" where
  "loader_ok folder imgs l =
     (ld_images l = imgs \<and> ld_folder l = folder
      \<and> (case thread l of
            Decoding i img_name \<Rightarrow> i < length imgs \<and> img_name = imgs ! i
          | _ \<Rightarrow> True))"

definition prefetch_sound :: "labeler \<Rightarrow> bool" where
  "prefetch_sound s =
     (list_all (sig_ok (disk s) (image_folder s) (images s)) (cache s)
      \<and> list_all (sig_ok (disk s) (image_folder s) (images s)) (pending s)
      \<and> list_all (loader_ok (image_folder s) (images s)) (all_loaders s))"

subsection \<open>Concrete sessions\<close>

text \<open>A disk on which every file decodes.\<close>

definition readable_all :: "string \<Rightarrow> bool" where
  "readable_all p = True"

text \<open>A folder with one image, labelled before the loader thread has taken a step.\<close>

definition one_image_done :: labeler where
  "one_image_done = run [LoadFolder ''/d'' [''a.png''], KeyPress ''p''] (init readable_all)"

text \<open>A state with the cursor at 8 and four cached entries, three of them behind it.\<close>

definition sample_cache_state :: labeler where
  "sample_cache_state =
     (init readable_all)\<lparr>images := replicate 30 ''x.png'', current_index := 8,
        cache := [(1, Null), (2, Scaled ''a''), (3, Scaled ''b''), (9, Scaled ''c'')]\<rparr>"

text \<open>A folder with two images, just loaded into a fresh window.\<close>

definition two_images :: labeler where
  "two_images = load_folder ''/d'' [''b.png'', ''a.png''] (init readable_all)"

text \<open>A fresh window after a folder without any file has been chosen.\<close>

definition empty_folder_loaded :: labeler where
  "empty_folder_loaded = load_folder ''/d'' [] (init readable_all)"

text \<open>
  Two images, the cursor moved to the second one while the loader is still decoding the
  first.
\<close>

definition loader_overtaken :: labeler where
  "loader_overtaken = run [LoaderRuns, KeyPress ''p''] two_images"

text \<open>The folder of the scenario with twenty images, as the directory lists it.\<close>

definition twenty_images :: "string list" where
  "twenty_images =
     [''img00.png'', ''img01.png'', ''img02.png'', ''img03.png'', ''img04.png'',
      ''img05.png'', ''img06.png'', ''img07.png'', ''img08.png'', ''img09.png'',
      ''img10.png'', ''img11.png'', ''img12.png'', ''img13.png'', ''img14.png'',
      ''img15.png'', ''img16.png'', ''img17.png'', ''img18.png'', ''img19.png'']"



section \<open>Properties\<close>

subsection \<open>What the methods leave alone\<close>

lemma loader_step_fields [simp]:
  "ld_images (snd (loader_step dsk l)) = ld_images l"
  "ld_folder (snd (loader_step dsk l)) = ld_folder l"
  "start_index (snd (loader_step dsk l)) = start_index l"
  "running (snd (loader_step dsk l)) = running l"
  by (auto simp: loader_step_def Let_def split: thread_state.splits)

lemma wait_fields_aux:
  "ld_images (snd (wait dsk l)) = ld_images l \<and> ld_folder (snd (wait dsk l)) = ld_folder l
   \<and> start_index (snd (wait dsk l)) = start_index l \<and> running (snd (wait dsk l)) = running l
   \<and> thread (snd (wait dsk l)) = Finished"
proof (induction dsk l rule: wait.induct)
  case (1 dsk l)
  show ?case
  proof (cases "thread l = Finished")
    case True
    then show ?thesis by (simp add: wait.simps)
  next
    case False
    obtain sigs l' where st: "loader_step dsk l = (sigs, l')" by (cases "loader_step dsk l")
    obtain sigs' l'' where w: "wait dsk l' = (sigs', l'')" by (cases "wait dsk l'")
    have l': "l' = snd (loader_step dsk l)" using st by simp
    have "wait dsk l = (sigs @ sigs', l'')"
      using False st w by (subst wait.simps) simp
    moreover from "1.IH" [OF False st [symmetric] refl]
    have "ld_images l'' = ld_images l' \<and> ld_folder l'' = ld_folder l'
      \<and> start_index l'' = start_index l' \<and> running l'' = running l' \<and> thread l'' = Finished"
      using w by simp
    ultimately show ?thesis by (simp add: l')
  qed
qed

lemma wait_fields [simp]:
  "ld_images (snd (wait dsk l)) = ld_images l"
  "ld_folder (snd (wait dsk l)) = ld_folder l"
  "start_index (snd (wait dsk l)) = start_index l"
  "running (snd (wait dsk l)) = running l"
  "thread (snd (wait dsk l)) = Finished"
  using wait_fields_aux [of dsk l] by simp_all

lemma show_current_image_core:
  "images (show_current_image s) = images s"
  "current_index (show_current_image s) = current_index s"
  "results (show_current_image s) = results s"
  "image_folder (show_current_image s) = image_folder s"
  "disk (show_current_image s) = disk s"
  "written (show_current_image s) =
     (if length (images s) \<le> current_index s
      then written s @ [(output_path, json_dump (results s))] else written s)"
  "portrait_btn (show_current_image s) = (current_index s < length (images s) \<and> portrait_btn s)"
  "landscape_btn (show_current_image s) = (current_index s < length (images s) \<and> landscape_btn s)"
  by (auto simp: show_current_image_def finish_def start_preload_def cleanup_cache_def
      update_progress_def Let_def split: option.splits prod.splits)

lemma update_fresh:
  "k \<notin> fst ` set al \<Longrightarrow> AList.update k v al = al @ [(k, v)]"
  by (induction al) auto

lemma label_image_core:
  assumes "current_index s < length (images s)"
  shows "images (label_image ori s) = images s"
    and "current_index (label_image ori s) = current_index s + 1"
    and "results (label_image ori s) = AList.update (images s ! current_index s) ori (results s)"
    and "written (label_image ori s) =
      (if current_index s + 1 = length (images s)
       then written s @ [(output_path, json_dump (AList.update (images s ! current_index s) ori (results s)))]
       else written s)"
    and "portrait_btn (label_image ori s) = (current_index s + 1 < length (images s) \<and> portrait_btn s)"
    and "landscape_btn (label_image ori s) = (current_index s + 1 < length (images s) \<and> landscape_btn s)"
  using assms by (auto simp: label_image_def Let_def show_current_image_core)

lemma background_core:
  assumes "label_of e = None" "\<not> is_load e"
  shows "images (step e s) = images s \<and> current_index (step e s) = current_index s
    \<and> results (step e s) = results s \<and> written (step e s) = written s
    \<and> portrait_btn (step e s) = portrait_btn s \<and> landscape_btn (step e s) = landscape_btn s"
  using assms
  by (cases e)
     (auto simp: step_def keyPressEvent_def closeEvent_def on_image_loaded_def update_progress_def
       Let_def split: option.splits prod.splits list.splits if_splits)

lemma label_step:
  assumes "label_of e = Some ori" "current_index s < length (images s) \<longrightarrow> portrait_btn s \<and> landscape_btn s"
  shows "step e s = label_image ori s"
  using assms
  by (cases e) (auto simp: step_def keyPressEvent_def label_image_def Let_def split: if_splits)

subsection \<open>The cursor and the label map along a schedule\<close>

lemma labels_of_Cons:
  "labels_of (e # evs) = (case label_of e of None \<Rightarrow> labels_of evs | Some ori \<Rightarrow> ori # labels_of evs)"
  by (simp add: labels_of_def List.map_filter_simps split: option.splits)

lemma labels_of_Nil [simp]: "labels_of [] = []"
  by (simp add: labels_of_def List.map_filter_simps)

lemma run_Nil [simp]: "run [] s = s"
  by (simp add: run_def)

lemma run_Cons [simp]: "run (e # evs) s = run evs (step e s)"
  by (simp add: run_def)


lemma labelling_fresh_key:
  assumes "labelling s" "current_index s < length (images s)"
  shows "images s ! current_index s \<notin> fst ` set (results s)"
proof -
  have "fst ` set (results s) = set (take (current_index s) (images s))"
    using assms(1) by (metis labelling_def set_map)
  moreover have "images s ! current_index s \<notin> set (take (current_index s) (images s))"
    using assms
    by (metis labelling_def distinct_take id_take_nth_drop not_distinct_conv_prefix
        append.assoc append_Cons append_Nil take_Suc_conv_app_nth distinct_append distinct.simps(2)
        in_set_conv_decomp)
  ultimately show ?thesis by simp
qed

lemma step_background:
  assumes "labelling s" "\<not> is_load e" "label_of e = None"
  shows "labelling (step e s)" "images (step e s) = images s"
    "current_index (step e s) = current_index s" "results (step e s) = results s"
    "written (step e s) = written s"
  using assms background_core [of e s] by (simp_all add: labelling_def)

lemma step_label_past:
  assumes "labelling s" "label_of e = Some ori" "length (images s) \<le> current_index s"
  shows "step e s = s"
  using assms by (simp add: label_step labelling_def label_image_def)

lemma step_label:
  assumes "labelling s" "label_of e = Some ori" "current_index s < length (images s)"
  shows "labelling (step e s)" "images (step e s) = images s"
    "current_index (step e s) = current_index s + 1"
    "results (step e s) = results s @ [(images s ! current_index s, ori)]"
    "written (step e s) =
       (if current_index s + 1 = length (images s)
        then written s @ [(output_path, json_dump (results s @ [(images s ! current_index s, ori)]))]
        else written s)"
proof -
  have st: "step e s = label_image ori s"
    using assms by (simp add: label_step labelling_def)
  have upd: "AList.update (images s ! current_index s) ori (results s)
      = results s @ [(images s ! current_index s, ori)]"
    using labelling_fresh_key [OF assms(1,3)] by (rule update_fresh)
  show "images (step e s) = images s" "current_index (step e s) = current_index s + 1"
    "results (step e s) = results s @ [(images s ! current_index s, ori)]"
    "written (step e s) =
       (if current_index s + 1 = length (images s)
        then written s @ [(output_path, json_dump (results s @ [(images s ! current_index s, ori)]))]
        else written s)"
    using assms(3) by (simp_all add: st label_image_core upd)
  show "labelling (step e s)"
    using assms(1,3)
    by (auto simp: labelling_def st label_image_core upd take_Suc_conv_app_nth)
qed

lemma labelling_run:
  assumes "labelling s" "in_session evs"
  shows "labelling (run evs s) \<and> images (run evs s) = images s
    \<and> current_index (run evs s) = min (length (images s)) (current_index s + length (labels_of evs))
    \<and> results (run evs s) = results s @ zip (drop (current_index s) (images s)) (labels_of evs)
    \<and> written (run evs s) = written s @
        (if current_index s < length (images s)
            \<and> length (images s) \<le> current_index s + length (labels_of evs)
         then [(output_path, json_dump (results s @ zip (drop (current_index s) (images s)) (labels_of evs)))]
         else [])"
  using assms
proof (induction evs arbitrary: s)
  case Nil
  then show ?case by (simp add: labelling_def)
next
  case (Cons e evs)
  from Cons.prems have ne: "\<not> is_load e" and rest: "in_session evs"
    by (simp_all add: in_session_def)
  show ?case
  proof (cases "label_of e")
    case None
    note bg = step_background [OF Cons.prems(1) ne None]
    from Cons.IH [OF bg(1) rest] show ?thesis
      by (simp add: bg labels_of_Cons None)
  next
    case (Some ori)
    show ?thesis
    proof (cases "current_index s < length (images s)")
      case False
      then have same: "step e s = s"
        using step_label_past [OF Cons.prems(1) Some] by simp
      from Cons.IH [OF Cons.prems(1) rest] False show ?thesis
        by (simp add: same labels_of_Cons Some)
    next
      case True
      note lb = step_label [OF Cons.prems(1) Some True]
      have dr: "drop (current_index s) (images s)
          = images s ! current_index s # drop (Suc (current_index s)) (images s)"
        using True by (simp add: Cons_nth_drop_Suc)
      from Cons.IH [OF lb(1) rest] True show ?thesis
        by (auto simp: lb labels_of_Cons Some dr)
    qed
  qed
qed

lemma load_folder_labelling:
  assumes "folder \<noteq> []" "distinct listing" "filter recognized (sort listing) \<noteq> []"
  shows "labelling (load_folder folder listing s)"
    "images (load_folder folder listing s) = filter recognized (sort listing)"
    "current_index (load_folder folder listing s) = 0"
    "results (load_folder folder listing s) = []"
    "written (load_folder folder listing s) = written s"
  using assms
  by (auto simp: load_folder_def Let_def labelling_def show_current_image_core start_preload_def
      split: option.splits prod.splits)

subsection \<open>Eviction\<close>

lemma fold_delete_filter:
  "fold AList.delete ks al = filter (\<lambda>p. fst p \<notin> set ks) al"
  by (induction ks arbitrary: al) (auto simp: AList.delete_eq intro: filter_cong)

lemma cleanup_cache_cache:
  "cache (cleanup_cache s) = filter (\<lambda>p. \<not> int (fst p) < int (current_index s) - 5) (cache s)"
  by (auto simp: cleanup_cache_def fold_delete_filter Let_def intro!: filter_cong)

lemma cleanup_cache_current_index [simp]: "current_index (cleanup_cache s) = current_index s"
  by (simp add: cleanup_cache_def Let_def)

lemma show_current_image_presenting:
  "current_index s < length (images s) \<Longrightarrow>
     \<exists>s'. show_current_image s = cleanup_cache s' \<and> current_index s' = current_index s"
  by (auto simp: show_current_image_def Let_def update_progress_def start_preload_def
      split: option.splits prod.splits)

text \<open>
  Claim C1. \<open>cleanup_cache\<close> removes exactly the entries whose key is below
  \<open>current_index - 5\<close>, so after it every key of the cache is at least
  \<open>current_index - 5\<close>; \<open>show_current_image\<close> ends with this pass whenever it presents an
  item, so the same bound holds in the state it returns.
\<close>

theorem cleanup_cache_window:
  "cache (cleanup_cache s) = filter (\<lambda>p. \<not> int (fst p) < int (current_index s) - 5) (cache s)
   \<and> list_all (\<lambda>k. int k \<ge> int (current_index (cleanup_cache s)) - 5) (map fst (cache (cleanup_cache s)))
   \<and> (current_index s < length (images s) \<longrightarrow>
        list_all (\<lambda>k. int k \<ge> int (current_index (show_current_image s)) - 5)
          (map fst (cache (show_current_image s))))"
proof (intro conjI impI)
  show "cache (cleanup_cache s) = filter (\<lambda>p. \<not> int (fst p) < int (current_index s) - 5) (cache s)"
    by (rule cleanup_cache_cache)
  show evicted: "list_all (\<lambda>k. int k \<ge> int (current_index (cleanup_cache s)) - 5)
      (map fst (cache (cleanup_cache s)))" for s
    by (auto simp: cleanup_cache_cache list_all_iff)
  assume "current_index s < length (images s)"
  then obtain s' where s': "show_current_image s = cleanup_cache s'"
    using show_current_image_presenting by blast
  show "list_all (\<lambda>k. int k \<ge> int (current_index (show_current_image s)) - 5)
          (map fst (cache (show_current_image s)))"
    unfolding s' by (rule evicted)
qed

theorem cleanup_cache_window_witness:
  "cache (cleanup_cache sample_cache_state) = [(3, Scaled ''b''), (9, Scaled ''c'')]
   \<and> current_index sample_cache_state < length (images sample_cache_state)
   \<and> list_all (\<lambda>k. int k \<ge> int (current_index (show_current_image sample_cache_state)) - 5)
          (map fst (cache (show_current_image sample_cache_state)))"
proof -
  have h: "current_index sample_cache_state < length (images sample_cache_state)"
    by (simp add: sample_cache_state_def init_def)
  have c: "filter (\<lambda>p. \<not> int (fst p) < int (current_index sample_cache_state) - 5)
      (cache sample_cache_state) = [(3, Scaled ''b''), (9, Scaled ''c'')]"
    by (simp add: sample_cache_state_def init_def)
  show ?thesis
    using h c cleanup_cache_window [of sample_cache_state] by simp
qed

subsection \<open>Labelling past the end\<close>

text \<open>
  Claim C10. \<open>label_image\<close> called when there are no images, or when the cursor has
  reached the number of images, returns the state it was given: the label map, the
  cursor, the cache, the loader and the files written are all as before. The same holds
  for the key press and the two button clicks that call it.
\<close>

theorem label_image_noop:
  "images s = [] \<or> length (images s) \<le> current_index s \<Longrightarrow>
     label_image orientation s = s \<and> keyPressEvent t s = s
     \<and> step PortraitClicked s = s \<and> step LandscapeClicked s = s"
  by (auto simp: label_image_def keyPressEvent_def step_def Let_def)

theorem label_image_noop_witness:
  "length (images one_image_done) \<le> current_index one_image_done
   \<and> label_image ''portrait'' one_image_done = one_image_done
   \<and> keyPressEvent ''l'' one_image_done = one_image_done
   \<and> step PortraitClicked one_image_done = one_image_done
   \<and> step LandscapeClicked one_image_done = one_image_done
   \<and> images (init readable_all) = []
   \<and> label_image ''landscape'' (init readable_all) = init readable_all"
proof -
  have h: "length (images one_image_done) \<le> current_index one_image_done"
    unfolding one_image_done_def by code_simp
  have h0: "images (init readable_all) = []" by (simp add: init_def)
  show ?thesis
    using h h0 label_image_noop [of one_image_done "''portrait''" "''l''"]
      label_image_noop [of "init readable_all" "''landscape''" "''l''"]
    by simp
qed

subsection \<open>The cursor only moves forward\<close>

lemma label_image_cursor:
  "images (label_image ori s) = images s"
  "current_index (label_image ori s) =
     (if current_index s < length (images s) then current_index s + 1 else current_index s)"
proof -
  show "images (label_image ori s) = images s"
    by (cases "current_index s < length (images s)")
       (simp_all add: label_image_core, simp add: label_image_def)
  show "current_index (label_image ori s) =
     (if current_index s < length (images s) then current_index s + 1 else current_index s)"
    by (cases "current_index s < length (images s)")
       (simp_all add: label_image_core, simp add: label_image_def)
qed

lemma step_cursor:
  assumes "\<not> is_load e"
  shows "images (step e s) = images s" "current_index s \<le> current_index (step e s)"
  using assms
  by (cases e;
      auto simp: step_def keyPressEvent_def closeEvent_def on_image_loaded_def update_progress_def
        label_image_cursor Let_def split: option.splits prod.splits list.splits)+

lemma run_cursor:
  "in_session evs \<Longrightarrow> images (run evs s) = images s \<and> current_index s \<le> current_index (run evs s)"
proof (induction evs arbitrary: s)
  case Nil
  then show ?case by simp
next
  case (Cons e evs)
  then have ne: "\<not> is_load e" and rest: "in_session evs" by (simp_all add: in_session_def)
  from Cons.IH [OF rest, of "step e s"] step_cursor [OF ne, of s] show ?case by simp
qed

text \<open>
  Claim C4. A call of \<open>label_image\<close> with the cursor below the number of images moves
  the cursor up by exactly one; a call with the cursor at (or past) the end leaves it where
  it is. Along any schedule that loads no folder the cursor never goes down and the
  sequence stays the same; in a session in progress, whatever the loader threads and the
  event loop do in between, the cursor is the number of labelling calls made, capped at
  the number of images.
\<close>

theorem cursor_monotone:
  "(current_index s < length (images s) \<longrightarrow>
      current_index (label_image ori s) = current_index s + 1)
   \<and> (length (images s) \<le> current_index s \<longrightarrow>
      current_index (label_image ori s) = current_index s)
   \<and> (in_session evs \<longrightarrow>
      current_index s \<le> current_index (run evs s) \<and> images (run evs s) = images s)
   \<and> (labelling s \<and> in_session evs \<longrightarrow>
      current_index (run evs s)
        = min (length (images s)) (current_index s + length (labels_of evs)))"
  using run_cursor [of evs s] labelling_run [of s evs]
  by (simp add: label_image_cursor)

theorem cursor_monotone_witness:
  "current_index two_images < length (images two_images)
   \<and> current_index (label_image ''portrait'' two_images) = current_index two_images + 1
   \<and> length (images one_image_done) \<le> current_index one_image_done
   \<and> current_index (label_image ''portrait'' one_image_done) = current_index one_image_done
   \<and> in_session [KeyPress ''L'', LoaderRuns, Deliver, PortraitClicked, KeyPress ''p'']
   \<and> labelling two_images
   \<and> current_index (run [KeyPress ''L'', LoaderRuns, Deliver, PortraitClicked, KeyPress ''p''] two_images) = 2"
proof -
  have h1: "current_index two_images < length (images two_images)"
    unfolding two_images_def by code_simp
  have h2: "length (images one_image_done) \<le> current_index one_image_done"
    unfolding one_image_done_def by code_simp
  have h3: "in_session [KeyPress ''L'', LoaderRuns, Deliver, PortraitClicked, KeyPress ''p'']"
    by code_simp
  have h4: "labelling two_images"
    unfolding two_images_def by code_simp
  have h5: "min (length (images two_images)) (current_index two_images
        + length (labels_of [KeyPress ''L'', LoaderRuns, Deliver, PortraitClicked, KeyPress ''p''])) = 2"
    unfolding two_images_def by code_simp
  show ?thesis
    using h1 h2 h3 h4 h5
      cursor_monotone [of two_images "''portrait''"
        "[KeyPress ''L'', LoaderRuns, Deliver, PortraitClicked, KeyPress ''p'']"]
      cursor_monotone [of one_image_done "''portrait''" "[]"]
    by simp
qed

subsection \<open>Completion\<close>

lemma start_preload_loader:
  "loader (start_preload i s) =
     Some \<lparr>ld_images = images s, ld_folder = image_folder s, start_index = i,
            running = True, thread = AtCheck i\<rparr>"
  "loaded_up_to (start_preload i s) = i + PREFETCH_COUNT"
  "images (start_preload i s) = images s"
  "current_index (start_preload i s) = current_index s"
  "cache (start_preload i s) = cache s"
  by (auto simp: start_preload_def Let_def split: option.splits prod.splits)

lemma show_current_image_supervised:
  assumes "loader s \<noteq> None"
  shows "supervised (show_current_image s)"
  using assms
  by (auto simp: supervised_def show_current_image_def finish_def stop_def cleanup_cache_def
      update_progress_def start_preload_loader Let_def split: option.splits)

lemma label_image_supervised:
  assumes "supervised s"
  shows "supervised (label_image ori s)"
proof (cases "images s = [] \<or> length (images s) \<le> current_index s")
  case True
  then show ?thesis using assms by (simp add: label_image_def)
next
  case False
  from assms have "loader s \<noteq> None" by (auto simp: supervised_def split: option.splits)
  with False show ?thesis
    by (simp add: label_image_def Let_def show_current_image_supervised)
qed

lemma step_supervised:
  assumes "supervised s" "\<not> is_load e"
  shows "supervised (step e s)"
proof (cases e)
  case (LoadFolder folder listing)
  with assms show ?thesis by simp
next
  case PortraitClicked
  with assms show ?thesis by (simp add: step_def label_image_supervised)
next
  case LandscapeClicked
  with assms show ?thesis by (simp add: step_def label_image_supervised)
next
  case (KeyPress t)
  with assms show ?thesis by (simp add: step_def keyPressEvent_def Let_def label_image_supervised)
next
  case CloseWindow
  with assms show ?thesis
    by (auto simp: step_def closeEvent_def supervised_def stop_def split: option.splits prod.splits
        dest!: arg_cong [where f = "\<lambda>p. running (snd p)"])
next
  case LoaderRuns
  with assms show ?thesis
    by (auto simp: step_def supervised_def split: option.splits prod.splits
        dest!: arg_cong [where f = "\<lambda>p. running (snd p)"])
next
  case (RetiredRuns k)
  with assms show ?thesis
    by (auto simp: step_def supervised_def split: option.splits prod.splits)
next
  case Deliver
  with assms show ?thesis
    by (auto simp: step_def supervised_def on_image_loaded_def update_progress_def Let_def
        split: option.splits prod.splits list.splits)
qed

lemma run_supervised:
  "supervised s \<Longrightarrow> in_session evs \<Longrightarrow> supervised (run evs s)"
  by (induction evs arbitrary: s) (auto simp: in_session_def step_supervised)

lemma load_folder_supervised:
  assumes "folder \<noteq> []" "filter recognized (sort listing) \<noteq> []"
  shows "supervised (load_folder folder listing s)"
  using assms
  by (simp add: load_folder_def Let_def show_current_image_supervised start_preload_loader)

lemma stopped_loader_returns:
  assumes "\<not> running l"
  shows "thread (snd (loader_step dsk (snd (loader_step dsk l)))) = Finished"
  using assms
  by (cases "thread l") (auto simp: loader_step_def Let_def)

lemma step_idle:
  assumes "images s = []" "loader s = None" "retired s = []" "pending s = []" "\<not> is_load e"
  shows "step e s = s"
  using assms
  by (cases e) (auto simp: step_def keyPressEvent_def label_image_def closeEvent_def Let_def)

lemma run_idle:
  assumes "images s = []" "loader s = None" "retired s = []" "pending s = []" "in_session evs"
  shows "run evs s = s"
  using assms by (induction evs) (auto simp: in_session_def step_idle)

lemma load_folder_empty:
  assumes "folder \<noteq> []" "filter recognized (sort listing) = []"
  shows "load_folder folder listing s =
    s\<lparr>image_folder := folder, images := [], cache := [], loaded_up_to := 0,
      name_label := ''No images found in folder''\<rparr>"
  using assms by (simp add: load_folder_def Let_def)


text \<open>
  Claim C5, as amended. In a folder with at least one recognized image, once the schedule
  of a session has made as many labelling calls as there are images, the cursor is at the
  end and the label map has exactly one entry per image, in the order of the sequence, with
  the labels given. The loader the window holds has been told to stop (its flag is
  cleared) and its thread returns within its next two steps; nothing waits for it, so it
  may still be running at that instant. In a fresh window on a folder without recognized
  images the label map is empty and there is no loader.
\<close>

theorem completion_labels_and_cancel:
  assumes "folder \<noteq> []" "distinct listing" "in_session evs"
    and "length (labels_of evs) = length (filter recognized (sort listing))"
  shows "(filter recognized (sort listing) \<noteq> [] \<longrightarrow>
          current_index (run evs (load_folder folder listing s))
            = length (filter recognized (sort listing))
        \<and> results (run evs (load_folder folder listing s))
            = zip (filter recognized (sort listing)) (labels_of evs)
        \<and> map fst (results (run evs (load_folder folder listing s)))
            = images (run evs (load_folder folder listing s))
        \<and> length (results (run evs (load_folder folder listing s)))
            = length (filter recognized (sort listing))
        \<and> (\<exists>l. loader (run evs (load_folder folder listing s)) = Some l \<and> \<not> running l
             \<and> \<not> isRunning (snd (loader_step dsk (snd (loader_step dsk l))))))
     \<and> (filter recognized (sort listing) = [] \<longrightarrow>
          results (run evs (load_folder folder listing (init dsk))) = []
        \<and> loader (run evs (load_folder folder listing (init dsk))) = None)"
proof (intro conjI impI)
  assume ne: "filter recognized (sort listing) \<noteq> []"
  let ?s1 = "load_folder folder listing s"
  let ?s' = "run evs ?s1"
  note lf = load_folder_labelling [OF assms(1,2) ne, of s]
  from labelling_run [OF lf(1) assms(3)]
  have r: "images ?s' = filter recognized (sort listing)"
    "current_index ?s' = length (filter recognized (sort listing))"
    "results ?s' = zip (filter recognized (sort listing)) (labels_of evs)"
    by (simp_all add: lf assms(4))
  show "current_index ?s' = length (filter recognized (sort listing))" by (rule r(2))
  show "results ?s' = zip (filter recognized (sort listing)) (labels_of evs)" by (rule r(3))
  show "map fst (results ?s') = images ?s'" by (simp add: r assms(4))
  show "length (results ?s') = length (filter recognized (sort listing))"
    by (simp add: r assms(4))
  have "supervised ?s'"
    by (rule run_supervised [OF load_folder_supervised [OF assms(1) ne] assms(3)])
  then obtain l where l: "loader ?s' = Some l" "\<not> running l"
    by (auto simp: supervised_def r split: option.splits)
  then show "\<exists>l. loader ?s' = Some l \<and> \<not> running l
      \<and> \<not> isRunning (snd (loader_step dsk (snd (loader_step dsk l))))"
    by (simp add: isRunning_def stopped_loader_returns)
next
  assume em: "filter recognized (sort listing) = []"
  have "run evs (load_folder folder listing (init dsk)) = load_folder folder listing (init dsk)"
    by (rule run_idle) (simp_all add: load_folder_empty [OF assms(1) em] init_def assms(3))
  then show "results (run evs (load_folder folder listing (init dsk))) = []"
    "loader (run evs (load_folder folder listing (init dsk))) = None"
    by (simp_all add: load_folder_empty [OF assms(1) em] init_def)
qed

theorem completion_labels_and_cancel_witness:
  "''/d'' \<noteq> [] \<and> distinct [''b.png'', ''a.png'']
   \<and> in_session [KeyPress ''L'', LoaderRuns, Deliver, PortraitClicked]
   \<and> length (labels_of [KeyPress ''L'', LoaderRuns, Deliver, PortraitClicked])
       = length (filter recognized (sort [''b.png'', ''a.png'']))
   \<and> filter recognized (sort [''b.png'', ''a.png'']) \<noteq> []
   \<and> results (run [KeyPress ''L'', LoaderRuns, Deliver, PortraitClicked]
        (load_folder ''/d'' [''b.png'', ''a.png''] (init readable_all)))
       = [(''a.png'', ''landscape''), (''b.png'', ''portrait'')]
   \<and> filter recognized (sort [''notes.txt'']) = []
   \<and> in_session [KeyPress ''x'']
   \<and> results (run [KeyPress ''x''] (load_folder ''/d'' [''notes.txt''] (init readable_all))) = []
   \<and> loader (run [KeyPress ''x''] (load_folder ''/d'' [''notes.txt''] (init readable_all))) = None"
proof -
  have h1: "''/d'' \<noteq> []" by simp
  have h2: "distinct [''b.png'', ''a.png'']" by simp
  have h3: "in_session [KeyPress ''L'', LoaderRuns, Deliver, PortraitClicked]" by code_simp
  have h4: "length (labels_of [KeyPress ''L'', LoaderRuns, Deliver, PortraitClicked])
       = length (filter recognized (sort [''b.png'', ''a.png'']))" by code_simp
  have h5: "filter recognized (sort [''b.png'', ''a.png'']) = [''a.png'', ''b.png'']" by code_simp
  have h6: "labels_of [KeyPress ''L'', LoaderRuns, Deliver, PortraitClicked]
       = [''landscape'', ''portrait'']" by code_simp
  have g1: "distinct [''notes.txt'']" by simp
  have g2: "in_session [KeyPress ''x'']" by code_simp
  have g3: "filter recognized (sort [''notes.txt'']) = []" by code_simp
  have g4: "length (labels_of [KeyPress ''x''])
       = length (filter recognized (sort [''notes.txt'']))" by code_simp
  have t1: "results (run [KeyPress ''L'', LoaderRuns, Deliver, PortraitClicked]
        (load_folder ''/d'' [''b.png'', ''a.png''] (init readable_all)))
       = [(''a.png'', ''landscape''), (''b.png'', ''portrait'')]"
    using completion_labels_and_cancel [OF h1 h2 h3 h4, where s = "init readable_all"
        and dsk = readable_all, unfolded h5 h6]
    by (simp del: run_Cons)
  have t2: "results (run [KeyPress ''x''] (load_folder ''/d'' [''notes.txt''] (init readable_all))) = []
      \<and> loader (run [KeyPress ''x''] (load_folder ''/d'' [''notes.txt''] (init readable_all))) = None"
    using completion_labels_and_cancel [OF h1 g1 g2 g4, where s = "init readable_all"
        and dsk = readable_all, unfolded g3]
    by (simp del: run_Cons)
  show ?thesis
    using h3 h4 g2 g3 t1 t2 unfolding h5 by (simp del: run_Cons)
qed

text \<open>
  The claim as stated fails: one image, labelled before the loader thread has run. The
  cursor is at the end, the label map has its one entry, and the loader is still running.
\<close>

theorem completion_loader_counterexample:
  "current_index one_image_done = length (images one_image_done)
   \<and> map fst (results one_image_done) = images one_image_done
   \<and> running_loaders one_image_done = 1"
  unfolding one_image_done_def by code_simp

subsection \<open>The output file\<close>

lemma str_join_Cons:
  "str_join sep (x # xs) = x @ concat (map (\<lambda>y. sep @ y) xs)"
  by (induction xs arbitrary: x) auto

lemma iterencode_items_rest:
  "concat (iterencode_items False kvs)
     = concat (map (\<lambda>kv. ('','' @ [CHR 0x0A]) @ item_text kv) kvs)"
  by (induction kvs)
     (auto simp: item_text_def item_separator_def newline_indent_def key_separator_def)

lemma json_dump_flat: "json_dump dct = flat_json_object dct"
proof (cases dct)
  case Nil
  then show ?thesis by (simp add: json_dump_def iterencode_dict_def flat_json_object_def)
next
  case (Cons kv kvs)
  obtain k v where kv: "kv = (k, v)" by (cases kv)
  show ?thesis
    unfolding Cons kv
    by (simp add: json_dump_def iterencode_dict_def flat_json_object_def str_join_Cons
        iterencode_items_rest item_text_def newline_indent_def key_separator_def
        comp_def)
qed

lemma label_of_values:
  "label_of e = Some ori \<Longrightarrow> ori = ''portrait'' \<or> ori = ''landscape''"
  by (cases e) (auto split: if_splits)

lemma labels_of_values:
  "list_all (\<lambda>v. v = ''portrait'' \<or> v = ''landscape'') (labels_of evs)"
  by (induction evs) (auto simp: labels_of_Cons split: option.splits dest: label_of_values)

lemma escape_reads_back_all: "\<forall>c. escape_reads_back c"
  by code_simp

lemma read_chars_escape:
  assumes "rest \<noteq> []"
  shows "read_chars (escape_char c @ rest) = put_char c (read_chars rest)"
proof -
  obtain t ts where rest: "rest = t # ts" using assms by (cases rest) auto
  have "escape_reads_back c" using escape_reads_back_all by blast
  then consider
      (plain) "escape_char c = [c]" "c \<noteq> CHR 0x22" "c \<noteq> CHR 0x5C" "\<not> (of_char c :: nat) < 32"
    | (short) d where "escape_char c = [CHR 0x5C, d]" "d \<noteq> CHR ''u''" "short_escape d = Some c"
    | (hex) h1 h2 h3 h4 where "escape_char c = [CHR 0x5C, CHR ''u'', h1, h2, h3, h4]"
        "hex4 h1 h2 h3 h4 = Some (of_char c)"
    unfolding escape_reads_back_def Let_def by blast
  then show ?thesis
  proof cases
    case plain
    then show ?thesis by (simp add: rest)
  next
    case short
    then show ?thesis by (simp add: rest)
  next
    case hex
    then show ?thesis by (simp add: rest)
  qed
qed

lemma read_chars_encoded:
  "read_chars (concat (map escape_char s) @ CHR 0x22 # rest) = Some (s, rest)"
proof (induction s)
  case Nil
  show ?case by (cases rest) simp_all
next
  case (Cons c s)
  have "read_chars (escape_char c @ (concat (map escape_char s) @ CHR 0x22 # rest))
      = put_char c (read_chars (concat (map escape_char s) @ CHR 0x22 # rest))"
    by (rule read_chars_escape) simp
  then show ?case by (simp add: Cons.IH put_char_def)
qed

lemma read_string_encoded:
  "read_string (encode_basestring_ascii s @ rest) = Some (s, rest)"
  by (simp add: read_string_def encode_basestring_ascii_def read_chars_encoded)

lemma skip_ws_simps:
  "skip_ws (CHR '' '' # inp) = skip_ws inp"
  "skip_ws (CHR 0x0A # inp) = skip_ws inp"
  "skip_ws (encode_basestring_ascii s @ inp) = encode_basestring_ascii s @ inp"
  "skip_ws (CHR '':'' # inp) = CHR '':'' # inp"
  "skip_ws (CHR '','' # inp) = CHR '','' # inp"
  "skip_ws (CHR ''{'' # inp) = CHR ''{'' # inp"
  "skip_ws (CHR ''}'' # inp) = CHR ''}'' # inp"
  "skip_ws [] = []"
  by (simp_all add: skip_ws_def is_ws_def encode_basestring_ascii_def)

lemma read_member_skip: "read_member inp = read_member (skip_ws inp)"
  by (simp add: read_member_def skip_ws_def)

lemma read_member_item:
  "read_member (item_text kv @ rest) = Some (kv, skip_ws rest)"
  "read_member (CHR 0x0A # item_text kv @ rest) = Some (kv, skip_ws rest)"
  "read_member (encode_basestring_ascii (fst kv) @ '': '' @ encode_basestring_ascii (snd kv) @ rest)
      = Some (kv, skip_ws rest)"
proof -
  show m: "read_member (encode_basestring_ascii (fst kv) @ '': '' @ encode_basestring_ascii (snd kv) @ rest)
      = Some (kv, skip_ws rest)"
    by (simp add: read_member_def skip_ws_simps read_string_encoded)
  have s: "skip_ws (item_text kv @ rest)
      = encode_basestring_ascii (fst kv) @ '': '' @ encode_basestring_ascii (snd kv) @ rest"
    by (simp add: item_text_def skip_ws_simps numeral_2_eq_2)
  show "read_member (item_text kv @ rest) = Some (kv, skip_ws rest)"
    by (subst read_member_skip) (simp only: s m)
  show "read_member (CHR 0x0A # item_text kv @ rest) = Some (kv, skip_ws rest)"
    by (subst read_member_skip) (simp only: skip_ws_simps s m)
qed

lemma read_more_items:
  "length kvs \<le> n \<Longrightarrow>
     read_more n (skip_ws (concat (map (\<lambda>kv. ('','' @ [CHR 0x0A]) @ item_text kv) kvs)
        @ [CHR 0x0A] @ ''}''))
       = Some (kvs, [])"
proof (induction kvs arbitrary: n)
  case Nil
  show ?case by (cases n) (simp_all add: skip_ws_simps)
next
  case (Cons kv kvs)
  then obtain m where n: "n = Suc m" and m: "length kvs \<le> m" by (cases n) auto
  show ?case
    using Cons.IH [OF m]
    by (simp add: n skip_ws_simps read_member_item)
qed

lemma length_items:
  "length kvs \<le> length (concat (map (\<lambda>kv. ('','' @ [CHR 0x0A]) @ item_text kv) kvs))"
  by (induction kvs) auto

lemma read_object_flat: "read_object (flat_json_object dct) = Some dct"
proof (cases dct)
  case Nil
  then show ?thesis by (simp add: flat_json_object_def read_object_def skip_ws_simps)
next
  case (Cons kv kvs)
  let ?more = "concat (map (\<lambda>kv. ('','' @ [CHR 0x0A]) @ item_text kv) kvs) @ [CHR 0x0A] @ ''}''"
  define X where "X = concat (map escape_char (fst kv)) @ [CHR 0x22] @ '': ''
      @ encode_basestring_ascii (snd kv) @ ?more"
  have f: "flat_json_object dct = CHR ''{'' # CHR 0x0A # item_text kv @ ?more"
    by (simp add: Cons flat_json_object_def str_join_Cons comp_def)
  have ek: "encode_basestring_ascii (fst kv) @ '': '' @ encode_basestring_ascii (snd kv) @ ?more
      = CHR 0x22 # X"
    by (simp add: X_def encode_basestring_ascii_def)
  have "skip_ws (CHR 0x0A # item_text kv @ ?more)
      = skip_ws (encode_basestring_ascii (fst kv) @ '': '' @ encode_basestring_ascii (snd kv) @ ?more)"
    by (simp add: item_text_def numeral_2_eq_2 skip_ws_simps(1,2))
  also have "\<dots> = encode_basestring_ascii (fst kv) @ '': '' @ encode_basestring_ascii (snd kv) @ ?more"
    by (rule skip_ws_simps(3))
  finally have sk: "skip_ws (CHR 0x0A # item_text kv @ ?more) = CHR 0x22 # X"
    by (simp only: ek)
  have rm: "read_member (CHR 0x22 # X) = Some (kv, skip_ws ?more)"
    unfolding ek [symmetric] by (rule read_member_item(3))
  have fuel: "length kvs \<le> length (CHR ''{'' # CHR 0x0A # item_text kv @ ?more)"
    using length_items [of kvs] by simp
  have more: "read_more (length (CHR ''{'' # CHR 0x0A # item_text kv @ ?more)) (skip_ws ?more)
      = Some (kvs, [])"
    by (rule read_more_items [OF fuel])
  have q: "(CHR 0x22 = CHR ''}'') = False" "(CHR ''{'' = CHR ''{'') = True" by simp_all
  have "read_object (CHR ''{'' # CHR 0x0A # item_text kv @ ?more) = Some (kv # kvs)"
    unfolding read_object_def
    by (simp only: skip_ws_simps(6,8) list.case if_True sk q if_False rm option.case prod.case more
        refl)
  then have "read_object (flat_json_object dct) = Some (kv # kvs)" unfolding f .
  then show ?thesis by (simp only: Cons)
qed

lemma read_object_json_dump: "read_object (json_dump dct) = Some dct"
  by (simp add: json_dump_flat read_object_flat)

text \<open>
  Claim C8. In a session on a folder with recognized images, nothing is written until
  the cursor reaches the end; at that moment one file is written, at the fixed path
  \<open>output_path\<close>, and its text is \<open>json.dump\<close> of the label map with indent 2: a flat object
  with one line per item behind two spaces, in the order of insertion, which is the order
  of the sequence. A reader of the JSON grammar reads that text back as exactly the label
  map: the item identifiers as keys, in order, each with the orientation given, so the
  escapes of the encoder lose nothing. Every value is \<open>portrait\<close> or \<open>landscape\<close>. When
  every label is \<open>portrait\<close> the object has one key per item, each mapped to \<open>portrait\<close>.
\<close>

theorem output_is_flat_json:
  assumes "folder \<noteq> []" "distinct listing" "filter recognized (sort listing) \<noteq> []"
    and "in_session evs"
  shows "written (run evs (load_folder folder listing s))
           = written s @
             (if length (filter recognized (sort listing)) \<le> length (labels_of evs)
              then [(output_path,
                     json_dump (zip (filter recognized (sort listing)) (labels_of evs)))]
              else [])
     \<and> (length (filter recognized (sort listing)) \<le> length (labels_of evs) \<longrightarrow>
          results (run evs (load_folder folder listing s))
            = zip (filter recognized (sort listing)) (labels_of evs)
        \<and> map fst (results (run evs (load_folder folder listing s)))
            = filter recognized (sort listing)
        \<and> read_object (snd (last (written (run evs (load_folder folder listing s)))))
            = Some (results (run evs (load_folder folder listing s))))
     \<and> json_dump (zip (filter recognized (sort listing)) (labels_of evs))
           = flat_json_object (zip (filter recognized (sort listing)) (labels_of evs))
     \<and> read_object (json_dump (zip (filter recognized (sort listing)) (labels_of evs)))
           = Some (zip (filter recognized (sort listing)) (labels_of evs))
     \<and> list_all (\<lambda>v. v = ''portrait'' \<or> v = ''landscape'') (labels_of evs)
     \<and> (labels_of evs = replicate (length (filter recognized (sort listing))) ''portrait'' \<longrightarrow>
          written (run evs (load_folder folder listing s))
            = written s @
              [(output_path,
                flat_json_object (map (\<lambda>i. (i, ''portrait'')) (filter recognized (sort listing))))]
        \<and> read_object (snd (last (written (run evs (load_folder folder listing s)))))
            = Some (map (\<lambda>i. (i, ''portrait'')) (filter recognized (sort listing))))"
proof -
  let ?imgs = "filter recognized (sort listing)"
  note lf = load_folder_labelling [OF assms(1,2,3), of s]
  from labelling_run [OF lf(1) assms(4)] assms(3)
  have w: "written (run evs (load_folder folder listing s))
           = written s @
             (if length ?imgs \<le> length (labels_of evs)
              then [(output_path, json_dump (zip ?imgs (labels_of evs)))] else [])"
    and r: "results (run evs (load_folder folder listing s)) = zip ?imgs (labels_of evs)"
    by (simp_all add: lf)
  have z: "zip xs (replicate (length xs) c) = map (\<lambda>i. (i, c)) xs" for xs :: "string list" and c :: string
    by (induction xs) auto
  have k: "map fst (zip ?imgs (labels_of evs)) = ?imgs"
    if "length ?imgs \<le> length (labels_of evs)"
    using that by (simp add: map_fst_zip_take min_def)
  have rd: "read_object (json_dump (zip ?imgs (labels_of evs))) = Some (zip ?imgs (labels_of evs))"
    by (rule read_object_json_dump)
  have rd_p: "read_object (flat_json_object (map (\<lambda>i. (i, ''portrait'')) ?imgs))
      = Some (map (\<lambda>i. (i, ''portrait'')) ?imgs)"
    by (rule read_object_flat)
  show ?thesis
    using w r k rd rd_p by (auto simp: json_dump_flat labels_of_values z)
qed

theorem output_is_flat_json_witness:
  "''/d'' \<noteq> [] \<and> distinct [''b.png'', ''a.png'']
   \<and> filter recognized (sort [''b.png'', ''a.png'']) \<noteq> []
   \<and> in_session [KeyPress ''p'', LoaderRuns, Deliver, PortraitClicked]
   \<and> length (filter recognized (sort [''b.png'', ''a.png'']))
       \<le> length (labels_of [KeyPress ''p'', LoaderRuns, Deliver, PortraitClicked])
   \<and> labels_of [KeyPress ''p'', LoaderRuns, Deliver, PortraitClicked]
       = replicate (length (filter recognized (sort [''b.png'', ''a.png'']))) ''portrait''
   \<and> written (run [KeyPress ''p'', LoaderRuns, Deliver, PortraitClicked]
        (load_folder ''/d'' [''b.png'', ''a.png''] (init readable_all)))
       = [(''data/orientations.json'',
           [CHR ''{'', CHR 0x0A]
           @ [CHR '' '', CHR '' '', CHR 0x22] @ ''a.png'' @ [CHR 0x22, CHR '':'', CHR '' '', CHR 0x22]
           @ ''portrait'' @ [CHR 0x22, CHR '','', CHR 0x0A]
           @ [CHR '' '', CHR '' '', CHR 0x22] @ ''b.png'' @ [CHR 0x22, CHR '':'', CHR '' '', CHR 0x22]
           @ ''portrait'' @ [CHR 0x22, CHR 0x0A, CHR ''}''])]
   \<and> read_object (snd (last (written (run [KeyPress ''p'', LoaderRuns, Deliver, PortraitClicked]
        (load_folder ''/d'' [''b.png'', ''a.png''] (init readable_all))))))
       = Some [(''a.png'', ''portrait''), (''b.png'', ''portrait'')]"
proof -
  have h1: "''/d'' \<noteq> []" by simp
  have h2: "distinct [''b.png'', ''a.png'']" by simp
  have h5: "filter recognized (sort [''b.png'', ''a.png'']) = [''a.png'', ''b.png'']" by code_simp
  have h3: "filter recognized (sort [''b.png'', ''a.png'']) \<noteq> []" by (simp only: h5) simp
  have h4: "in_session [KeyPress ''p'', LoaderRuns, Deliver, PortraitClicked]" by code_simp
  have h6: "labels_of [KeyPress ''p'', LoaderRuns, Deliver, PortraitClicked]
       = [''portrait'', ''portrait'']" by code_simp
  have tx: "flat_json_object [(''a.png'', ''portrait''), (''b.png'', ''portrait'')]
       = [CHR ''{'', CHR 0x0A]
           @ [CHR '' '', CHR '' '', CHR 0x22] @ ''a.png'' @ [CHR 0x22, CHR '':'', CHR '' '', CHR 0x22]
           @ ''portrait'' @ [CHR 0x22, CHR '','', CHR 0x0A]
           @ [CHR '' '', CHR '' '', CHR 0x22] @ ''b.png'' @ [CHR 0x22, CHR '':'', CHR '' '', CHR 0x22]
           @ ''portrait'' @ [CHR 0x22, CHR 0x0A, CHR ''}'']" by code_simp
  have w0: "written (init readable_all) = []" by (simp add: init_def)
  note inst = output_is_flat_json [OF h1 h2 h3 h4, where s = "init readable_all", unfolded h5 h6 w0]
  have t: "written (run [KeyPress ''p'', LoaderRuns, Deliver, PortraitClicked]
        (load_folder ''/d'' [''b.png'', ''a.png''] (init readable_all)))
       = [(output_path, flat_json_object [(''a.png'', ''portrait''), (''b.png'', ''portrait'')])]"
    using inst by (simp del: run_Cons add: numeral_2_eq_2)
  have rb: "read_object (snd (last (written (run [KeyPress ''p'', LoaderRuns, Deliver, PortraitClicked]
        (load_folder ''/d'' [''b.png'', ''a.png''] (init readable_all))))))
       = Some [(''a.png'', ''portrait''), (''b.png'', ''portrait'')]"
    using inst by (simp del: run_Cons add: numeral_2_eq_2 read_object_flat)
  show ?thesis
    using h4 rb unfolding h5 h6 t tx by (simp del: run_Cons add: output_path_def numeral_2_eq_2)
qed

text \<open>
  A file name with a double quote, a backslash, a line feed and the letter U+00E9: the
  text escapes them and the reader gives the name back.
\<close>

lemma escaped_name_reads_back:
  "json_dump [(''a'' @ [CHR 0x22, CHR 0x5C, CHR 0x0A, CHR 0xE9] @ ''.png'', ''landscape'')]
     = ''{'' @ [CHR 0x0A] @ ''  '' @ [CHR 0x22] @ ''a'' @ [CHR 0x5C, CHR 0x22, CHR 0x5C, CHR 0x5C]
       @ [CHR 0x5C] @ ''n'' @ [CHR 0x5C] @ ''u00e9.png'' @ [CHR 0x22] @ '': '' @ [CHR 0x22]
       @ ''landscape'' @ [CHR 0x22, CHR 0x0A] @ ''}''
   \<and> read_object (json_dump [(''a'' @ [CHR 0x22, CHR 0x5C, CHR 0x0A, CHR 0xE9] @ ''.png'', ''landscape'')])
     = Some [(''a'' @ [CHR 0x22, CHR 0x5C, CHR 0x0A, CHR 0xE9] @ ''.png'', ''landscape'')]"
  by code_simp

subsection \<open>A folder without images\<close>

text \<open>
  Claim C7, as amended. When the chosen folder has no recognized image, \<open>load_folder\<close>
  stores the folder, empties the sequence and the cache, shows
  \<open>No images found in folder\<close> and returns: the loader, the label map, the cursor and the
  files written are as before, so no loader is started and nothing is written. In a fresh
  window every later event of the session leaves the state as it is: no loader is ever
  started, completion is never reported and no file is ever written.
\<close>

theorem load_empty_folder:
  assumes "folder \<noteq> []" "filter recognized (sort listing) = []"
  shows "load_folder folder listing s =
           s\<lparr>image_folder := folder, images := [], cache := [], loaded_up_to := 0,
             name_label := ''No images found in folder''\<rparr>
     \<and> loader (load_folder folder listing s) = loader s
     \<and> retired (load_folder folder listing s) = retired s
     \<and> written (load_folder folder listing s) = written s
     \<and> results (load_folder folder listing s) = results s
     \<and> (in_session evs \<longrightarrow>
          run evs (load_folder folder listing (init dsk)) = load_folder folder listing (init dsk)
        \<and> loader (run evs (load_folder folder listing (init dsk))) = None
        \<and> retired (run evs (load_folder folder listing (init dsk))) = []
        \<and> written (run evs (load_folder folder listing (init dsk))) = []
        \<and> results (run evs (load_folder folder listing (init dsk))) = []
        \<and> name_label (run evs (load_folder folder listing (init dsk)))
            = ''No images found in folder'')"
proof -
  have e: "load_folder folder listing t =
           t\<lparr>image_folder := folder, images := [], cache := [], loaded_up_to := 0,
             name_label := ''No images found in folder''\<rparr>" for t
    by (rule load_folder_empty [OF assms])
  have "run evs (load_folder folder listing (init dsk)) = load_folder folder listing (init dsk)"
    if "in_session evs"
    by (rule run_idle) (simp_all add: e init_def that)
  then show ?thesis
    by (simp add: e) (simp add: init_def)
qed

theorem load_empty_folder_witness:
  "''/d'' \<noteq> [] \<and> filter recognized (sort [''notes.txt'', ''b.PNG.bak'']) = []
   \<and> in_session [KeyPress ''p'', LoaderRuns, Deliver, CloseWindow]
   \<and> loader (run [KeyPress ''p'', LoaderRuns, Deliver, CloseWindow]
        (load_folder ''/d'' [''notes.txt'', ''b.PNG.bak''] (init readable_all))) = None
   \<and> written (run [KeyPress ''p'', LoaderRuns, Deliver, CloseWindow]
        (load_folder ''/d'' [''notes.txt'', ''b.PNG.bak''] (init readable_all))) = []
   \<and> name_label (run [KeyPress ''p'', LoaderRuns, Deliver, CloseWindow]
        (load_folder ''/d'' [''notes.txt'', ''b.PNG.bak''] (init readable_all)))
       = ''No images found in folder''"
proof -
  have h1: "''/d'' \<noteq> []" by simp
  have h2: "filter recognized (sort [''notes.txt'', ''b.PNG.bak'']) = []" by code_simp
  have h3: "in_session [KeyPress ''p'', LoaderRuns, Deliver, CloseWindow]" by code_simp
  show ?thesis
    using h1 h2 h3 load_empty_folder [OF h1 h2, where evs = "[KeyPress ''p'', LoaderRuns, Deliver, CloseWindow]"
        and dsk = readable_all and s = "init readable_all"]
    by blast
qed

text \<open>
  The claim as stated fails: in a fresh window, after an empty folder is chosen, no file
  has been written and the window shows \<open>No images found in folder\<close>, not the completion
  message of \<open>finish\<close>.
\<close>

theorem load_empty_folder_counterexample:
  "images empty_folder_loaded = []
   \<and> written empty_folder_loaded = []
   \<and> name_label empty_folder_loaded = ''No images found in folder''
   \<and> name_label (finish empty_folder_loaded) = ''All done!''
   \<and> written (finish empty_folder_loaded) = [(''data/orientations.json'', ''{}'')]"
  unfolding empty_folder_loaded_def by code_simp

subsection \<open>The progress surface\<close>

lemma count_cleanup:
  "count_at_or_after (current_index s) (cache (cleanup_cache s))
     = count_at_or_after (current_index s) (cache s)"
proof -
  have "filter (\<lambda>p. current_index s \<le> fst p)
          (filter (\<lambda>p. \<not> int (fst p) < int (current_index s) - 5) (cache s))
        = filter (\<lambda>p. current_index s \<le> fst p) (cache s)"
    by (auto intro!: filter_cong)
  then show ?thesis by (simp add: count_at_or_after_def cleanup_cache_cache)
qed

lemma on_image_loaded_progress:
  "progress_label (on_image_loaded index pixmap s) = Some (surface (on_image_loaded index pixmap s))"
  by (simp add: on_image_loaded_def update_progress_def Let_def surface_def count_at_or_after_def
      comp_def)

lemma show_current_image_progress:
  assumes "current_index s < length (images s)"
  shows "progress_label (show_current_image s) = Some (surface (show_current_image s))"
proof -
  have c: "cache (show_current_image s) = cache (cleanup_cache s)"
    using assms
    by (auto simp: show_current_image_def update_progress_def start_preload_loader cleanup_cache_def
        Let_def split: option.splits)
  have p: "progress_label (show_current_image s) = Some (surface s)"
    using assms
    by (auto simp: show_current_image_def update_progress_def start_preload_def cleanup_cache_def
        surface_def count_at_or_after_def comp_def Let_def split: option.splits prod.splits)
  show ?thesis
    using assms by (simp add: p surface_def c count_cleanup show_current_image_core)
qed

text \<open>
  Claim C9. After every put into the cache (\<open>on_image_loaded\<close>, which the delivery of a
  queued signal runs) and after every eviction pass (the end of \<open>show_current_image\<close>
  whenever it presents an item) the progress label shows cursor + 1, the number of items
  and the number of cached entries at or after the cursor, computed from the state as it is
  then. \<open>show_current_image\<close> recomputes the label before the pass; the pass removes only
  entries behind the cursor, so the count on display is that of the cache after it.
\<close>

theorem progress_up_to_date:
  "progress_label (on_image_loaded index pixmap s)
      = Some (surface (on_image_loaded index pixmap s))
   \<and> (pending s \<noteq> [] \<longrightarrow> progress_label (step Deliver s) = Some (surface (step Deliver s)))
   \<and> (current_index s < length (images s) \<longrightarrow>
        progress_label (show_current_image s) = Some (surface (show_current_image s))
      \<and> count_at_or_after (current_index s) (cache (cleanup_cache s))
          = count_at_or_after (current_index s) (cache s))"
  by (auto simp: on_image_loaded_progress show_current_image_progress count_cleanup step_def
      split: list.splits)

theorem progress_up_to_date_witness:
  "progress_label (on_image_loaded 1 (Scaled ''/d/b.png'') loader_overtaken) = Some (2, 2, 1)
   \<and> pending (run [LoaderRuns] loader_overtaken) \<noteq> []
   \<and> progress_label (step Deliver (run [LoaderRuns] loader_overtaken)) = Some (2, 2, 0)
   \<and> current_index sample_cache_state < length (images sample_cache_state)
   \<and> progress_label (show_current_image sample_cache_state) = Some (9, 30, 1)"
proof -
  have h1: "pending (run [LoaderRuns] loader_overtaken) \<noteq> []"
    unfolding loader_overtaken_def two_images_def by code_simp
  have h2: "current_index sample_cache_state < length (images sample_cache_state)"
    unfolding sample_cache_state_def by code_simp
  have s1: "surface (on_image_loaded 1 (Scaled ''/d/b.png'') loader_overtaken) = (2, 2, 1)"
    unfolding loader_overtaken_def two_images_def by code_simp
  have s2: "surface (step Deliver (run [LoaderRuns] loader_overtaken)) = (2, 2, 0)"
    unfolding loader_overtaken_def two_images_def by code_simp
  have s3: "surface (show_current_image sample_cache_state) = (9, 30, 1)"
    unfolding sample_cache_state_def by code_simp
  show ?thesis
    using h1 h2
      progress_up_to_date [of 1 "Scaled ''/d/b.png''" loader_overtaken]
      progress_up_to_date [of 1 "Scaled ''/d/b.png''" "run [LoaderRuns] loader_overtaken"]
      progress_up_to_date [of 1 "Scaled ''/d/b.png''" sample_cache_state]
    unfolding s1 s2 s3 by (simp del: run_Cons)
qed

subsection \<open>One loader at a time\<close>

lemma loader_step_finished:
  "thread l = Finished \<Longrightarrow> loader_step dsk l = ([], l)"
  by (simp add: loader_step_def)

lemma start_preload_retired:
  "retired (start_preload i s) =
     (case loader s of
        None \<Rightarrow> retired s
      | Some l \<Rightarrow> retired s @ [if isRunning l then snd (wait (disk s) (stop l)) else l])"
  "pending (start_preload i s) =
     (case loader s of
        None \<Rightarrow> pending s
      | Some l \<Rightarrow> pending s @ (if isRunning l then fst (wait (disk s) (stop l)) else []))"
  by (auto simp: start_preload_def Let_def split: option.splits prod.splits)

lemma start_preload_retired_done:
  "retired_done s \<Longrightarrow> retired_done (start_preload i s)"
  by (auto simp: retired_done_def start_preload_retired isRunning_def split: option.splits)

lemma retired_done_update [simp]:
  "retired_done (s\<lparr>images := a1\<rparr>) = retired_done s"
  "retired_done (s\<lparr>current_index := a2\<rparr>) = retired_done s"
  "retired_done (s\<lparr>results := a3\<rparr>) = retired_done s"
  "retired_done (s\<lparr>image_folder := a4\<rparr>) = retired_done s"
  "retired_done (s\<lparr>cache := a5\<rparr>) = retired_done s"
  "retired_done (s\<lparr>loaded_up_to := a6\<rparr>) = retired_done s"
  "retired_done (s\<lparr>loader := a7\<rparr>) = retired_done s"
  "retired_done (s\<lparr>image_label := a8\<rparr>) = retired_done s"
  "retired_done (s\<lparr>name_label := a9\<rparr>) = retired_done s"
  "retired_done (s\<lparr>progress_label := b1\<rparr>) = retired_done s"
  "retired_done (s\<lparr>status_label := b2\<rparr>) = retired_done s"
  "retired_done (s\<lparr>portrait_btn := b3\<rparr>) = retired_done s"
  "retired_done (s\<lparr>landscape_btn := b4\<rparr>) = retired_done s"
  "retired_done (s\<lparr>pending := b5\<rparr>) = retired_done s"
  "retired_done (s\<lparr>written := b6\<rparr>) = retired_done s"
  by (simp_all add: retired_done_def)

lemma show_current_image_retired_done:
  "retired_done s \<Longrightarrow> retired_done (show_current_image s)"
  by (auto simp: show_current_image_def finish_def cleanup_cache_def update_progress_def Let_def
      intro!: start_preload_retired_done split: option.splits)

lemma label_image_retired_done:
  "retired_done s \<Longrightarrow> retired_done (label_image ori s)"
  by (auto simp: label_image_def Let_def intro!: show_current_image_retired_done)

lemma load_folder_retired_done:
  "retired_done s \<Longrightarrow> retired_done (load_folder folder listing s)"
  by (auto simp: load_folder_def Let_def
      intro!: show_current_image_retired_done start_preload_retired_done)

lemma step_retired_done:
  assumes "retired_done s"
  shows "retired_done (step e s)"
proof (cases e)
  case (LoadFolder folder listing)
  with assms show ?thesis by (simp add: step_def load_folder_retired_done)
next
  case PortraitClicked
  with assms show ?thesis by (simp add: step_def label_image_retired_done)
next
  case LandscapeClicked
  with assms show ?thesis by (simp add: step_def label_image_retired_done)
next
  case (KeyPress t)
  with assms show ?thesis by (simp add: step_def keyPressEvent_def Let_def label_image_retired_done)
next
  case CloseWindow
  with assms show ?thesis
    by (auto simp: step_def closeEvent_def retired_done_def split: option.splits prod.splits)
next
  case LoaderRuns
  with assms show ?thesis
    by (auto simp: step_def retired_done_def split: option.splits prod.splits)
next
  case (RetiredRuns k)
  show ?thesis
  proof (cases "k < length (retired s)")
    case True
    with assms have "thread (retired s ! k) = Finished"
      by (auto simp: retired_done_def list_all_length isRunning_def)
    then have "step e s = s\<lparr>retired := (retired s)[k := retired s ! k], pending := pending s\<rparr>"
      using True by (simp add: RetiredRuns step_def loader_step_finished)
    then show ?thesis using assms by (simp add: retired_done_def)
  next
    case False
    then show ?thesis using assms by (simp add: RetiredRuns step_def)
  qed
next
  case Deliver
  with assms show ?thesis
    by (auto simp: step_def retired_done_def on_image_loaded_def update_progress_def Let_def
        split: list.splits)
qed

lemma run_retired_done:
  "retired_done s \<Longrightarrow> retired_done (run evs s)"
  by (induction evs arbitrary: s) (auto simp: step_retired_done)

lemma retired_done_running_loaders:
  "retired_done s \<Longrightarrow> running_loaders s \<le> 1"
proof -
  assume "retired_done s"
  then have "filter isRunning (retired s) = []"
    by (auto simp: retired_done_def list_all_iff filter_empty_conv)
  then show ?thesis
    by (simp add: running_loaders_def all_loaders_def split: option.splits)
qed

text \<open>
  Claim C2. In every state the window can reach from its start, under any schedule of
  inputs, thread steps and deliveries, at most one loader thread is running. When
  \<open>start_preload\<close> finds a loader that is still running, that loader is retired with its
  flag cleared and its thread returned (it has been stopped and waited for) in the state
  in which the new loader is created and started, and the new loader is then the only one
  that runs.
\<close>

theorem single_loader:
  "running_loaders (run evs (init dsk)) \<le> 1
   \<and> (loader s = Some l \<and> isRunning l \<longrightarrow>
        retired (start_preload i s) = retired s @ [snd (wait (disk s) (stop l))]
      \<and> \<not> running (snd (wait (disk s) (stop l)))
      \<and> \<not> isRunning (snd (wait (disk s) (stop l)))
      \<and> loader (start_preload i s)
          = Some \<lparr>ld_images = images s, ld_folder = image_folder s, start_index = i,
                   running = True, thread = AtCheck i\<rparr>)
   \<and> (retired_done s \<longrightarrow> running_loaders (start_preload i s) \<le> 1)"
proof (intro conjI impI)
  have "retired_done (init dsk)" by (simp add: retired_done_def init_def)
  then show "running_loaders (run evs (init dsk)) \<le> 1"
    by (intro retired_done_running_loaders run_retired_done)
next
  assume "retired_done s"
  then show "running_loaders (start_preload i s) \<le> 1"
    by (intro retired_done_running_loaders start_preload_retired_done)
qed (simp_all add: start_preload_retired start_preload_loader isRunning_def stop_def)

theorem single_loader_witness:
  "running_loaders (run [LoadFolder ''/d'' [''b.png'', ''a.png''], LoaderRuns,
        LoadFolder ''/e'' [''c.png''], RetiredRuns 0, LoaderRuns] (init readable_all)) \<le> 1
   \<and> loader two_images = Some \<lparr>ld_images = [''a.png'', ''b.png''], ld_folder = ''/d'',
        start_index = 0, running = True, thread = AtCheck 0\<rparr>
   \<and> isRunning \<lparr>ld_images = [''a.png'', ''b.png''], ld_folder = ''/d'',
        start_index = 0, running = True, thread = AtCheck 0\<rparr>
   \<and> retired (start_preload 20 two_images)
       = [\<lparr>ld_images = [''a.png'', ''b.png''], ld_folder = ''/d'',
           start_index = 0, running = False, thread = Finished\<rparr>]
   \<and> retired_done two_images
   \<and> running_loaders (start_preload 20 two_images) \<le> 1"
proof -
  let ?l = "\<lparr>ld_images = [''a.png'', ''b.png''], ld_folder = ''/d'',
        start_index = 0, running = True, thread = AtCheck 0\<rparr>"
  have h1: "loader two_images = Some ?l"
    unfolding two_images_def by code_simp
  have h2: "isRunning ?l" by (simp add: isRunning_def)
  have h3: "retired_done two_images"
    unfolding two_images_def by code_simp
  have h4: "retired two_images = []"
    unfolding two_images_def by code_simp
  have h5: "snd (wait (disk two_images) (stop ?l))
      = \<lparr>ld_images = [''a.png'', ''b.png''], ld_folder = ''/d'',
           start_index = 0, running = False, thread = Finished\<rparr>"
    by (simp add: wait.simps [of _ "stop ?l"] wait.simps [of _ "(stop ?l)\<lparr>thread := Finished\<rparr>"]
        stop_def loader_step_def range_end_def PREFETCH_COUNT_def)
  show ?thesis
    using h1 h2 h3
      single_loader [of "[LoadFolder ''/d'' [''b.png'', ''a.png''], LoaderRuns,
        LoadFolder ''/e'' [''c.png''], RetiredRuns 0, LoaderRuns]" readable_all two_images ?l 20]
    unfolding h4 h5 by (simp del: run_Cons)
qed

subsection \<open>When a new loader is started\<close>


lemma show_current_image_loader:
  assumes "current_index s < length (images s)"
  shows "loader (show_current_image s) =
      (if int (current_index s) \<ge> int (loaded_up_to s) - int (PREFETCH_COUNT div 2)
       then Some \<lparr>ld_images = images s, ld_folder = image_folder s, start_index = loaded_up_to s,
                  running = True, thread = AtCheck (loaded_up_to s)\<rparr>
       else loader s)"
    and "loaded_up_to (show_current_image s) =
      (if int (current_index s) \<ge> int (loaded_up_to s) - int (PREFETCH_COUNT div 2)
       then loaded_up_to s + PREFETCH_COUNT else loaded_up_to s)"
    and "retired (show_current_image s) =
      (if int (current_index s) \<ge> int (loaded_up_to s) - int (PREFETCH_COUNT div 2)
       then retired (start_preload (loaded_up_to s) s) else retired s)"
  using assms
  by (auto simp: show_current_image_def update_progress_def cleanup_cache_def Let_def
      start_preload_loader start_preload_retired split: option.splits)

lemma show_current_image_finish:
  assumes "length (images s) \<le> current_index s"
  shows "loader (show_current_image s) = map_option stop (loader s)"
    and "loaded_up_to (show_current_image s) = loaded_up_to s"
  using assms
  by (auto simp: show_current_image_def finish_def Let_def split: option.splits)

lemma window_bounds:
  fixes c :: nat
  shows "20 * ((c + 10) div 20) \<le> c + 10" "c + 10 < 20 * ((c + 10) div 20) + 20"
proof -
  show "20 * ((c + 10) div 20) \<le> c + 10" by (rule times_div_less_eq_dividend)
  have "c + 10 < 20 + 20 * ((c + 10) div 20)" by (rule dividend_less_times_div) simp
  then show "c + 10 < 20 * ((c + 10) div 20) + 20" by simp
qed

lemma window_next:
  fixes c :: nat
  assumes "int (Suc c) \<ge> int (20 * ((c + 10) div 20 + 1)) - 10"
  shows "(Suc c + 10) div 20 = (c + 10) div 20 + 1"
proof (rule div_nat_eqI)
  from assms have a: "20 * ((c + 10) div 20) + 10 \<le> Suc c" by simp
  from a show "20 * ((c + 10) div 20 + 1) \<le> Suc c + 10" by simp
  from window_bounds [of c] show "Suc c + 10 < 20 * Suc ((c + 10) div 20 + 1)" by simp
qed

lemma window_same:
  fixes c :: nat
  assumes "\<not> int (Suc c) \<ge> int (20 * ((c + 10) div 20 + 1)) - 10"
  shows "(Suc c + 10) div 20 = (c + 10) div 20"
proof (rule div_nat_eqI)
  from assms have a: "Suc c < 20 * ((c + 10) div 20) + 10" by simp
  from window_bounds [of c] show "20 * ((c + 10) div 20) \<le> Suc c + 10" by simp
  from a show "Suc c + 10 < 20 * Suc ((c + 10) div 20)" by simp
qed

lemma label_image_covering:
  assumes "covering s"
  shows "covering (label_image ori s)"
proof (cases "images s = [] \<or> length (images s) \<le> current_index s")
  case True
  then show ?thesis using assms by (simp add: label_image_def)
next
  case False
  then have lt: "current_index s < length (images s)" by simp
  then have m: "min (current_index s) (length (images s) - 1) = current_index s" by simp
  obtain l where l: "loader s = Some l" "start_index l + 20 = loaded_up_to s"
    "ld_images l = images s" "ld_folder l = image_folder s"
    and lut: "loaded_up_to s = 20 * ((current_index s + 10) div 20 + 1)"
    using assms unfolding covering_def m by (auto simp: PREFETCH_COUNT_def split: option.splits)
  define s2 where "s2 = s\<lparr>results := AList.update (images s ! current_index s) ori (results s),
      current_index := current_index s + 1\<rparr>"
  have li: "label_image ori s = show_current_image s2"
    using False by (simp add: label_image_def Let_def s2_def)
  have f2: "images s2 = images s" "current_index s2 = Suc (current_index s)"
    "loaded_up_to s2 = loaded_up_to s" "loader s2 = loader s" "image_folder s2 = image_folder s"
    by (simp_all add: s2_def)
  show ?thesis
  proof (cases "Suc (current_index s) < length (images s)")
    case True
    then have lt2: "current_index s2 < length (images s2)" by (simp add: f2)
    from True have m2: "min (Suc (current_index s)) (length (images s) - Suc 0) = Suc (current_index s)"
      by simp
    note ld = show_current_image_loader(1,2) [OF lt2, unfolded f2 PREFETCH_COUNT_def]
    show ?thesis
    proof (cases "int (Suc (current_index s)) \<ge> int (loaded_up_to s) - 10")
      case True
      then have "(Suc (current_index s) + 10) div 20 = (current_index s + 10) div 20 + 1"
        unfolding lut by (rule window_next)
      then show ?thesis
        using True ld lut
        by (simp add: li covering_def show_current_image_core f2 m2 PREFETCH_COUNT_def)
    next
      case False
      then have "(Suc (current_index s) + 10) div 20 = (current_index s + 10) div 20"
        unfolding lut by (rule window_same)
      then show ?thesis
        using False ld lut l
        by (simp add: li covering_def show_current_image_core f2 m2 PREFETCH_COUNT_def)
    qed
  next
    case False
    with lt have e: "Suc (current_index s) = length (images s)" by simp
    then have ge: "length (images s2) \<le> current_index s2" by (simp add: f2)
    from e have m2: "min (Suc (current_index s)) (length (images s) - Suc 0) = current_index s"
      by simp
    show ?thesis
      using l lut
      by (simp add: li covering_def show_current_image_finish [OF ge] show_current_image_core
          f2 m2 PREFETCH_COUNT_def stop_def)
  qed
qed

lemma step_covering:
  assumes "covering s" "\<not> is_load e"
  shows "covering (step e s)"
proof (cases e)
  case (LoadFolder folder listing)
  with assms show ?thesis by simp
next
  case PortraitClicked
  with assms show ?thesis by (simp add: step_def label_image_covering)
next
  case LandscapeClicked
  with assms show ?thesis by (simp add: step_def label_image_covering)
next
  case (KeyPress t)
  with assms show ?thesis by (simp add: step_def keyPressEvent_def Let_def label_image_covering)
next
  case CloseWindow
  obtain l where l: "loader s = Some l" using assms by (auto simp: covering_def split: option.splits)
  obtain sigs l' where w: "wait (disk s) (stop l) = (sigs, l')" by (cases "wait (disk s) (stop l)")
  then have "l' = snd (wait (disk s) (stop l))" by simp
  then have "start_index l' = start_index l" "ld_images l' = ld_images l" "ld_folder l' = ld_folder l"
    by (simp_all add: stop_def)
  then show ?thesis
    using assms l w by (simp add: CloseWindow step_def closeEvent_def covering_def)
next
  case LoaderRuns
  obtain l where l: "loader s = Some l" using assms by (auto simp: covering_def split: option.splits)
  obtain sigs l' where w: "loader_step (disk s) l = (sigs, l')" by (cases "loader_step (disk s) l")
  then have "l' = snd (loader_step (disk s) l)" by simp
  then have "start_index l' = start_index l" "ld_images l' = ld_images l" "ld_folder l' = ld_folder l"
    by simp_all
  then show ?thesis
    using assms l w by (simp add: LoaderRuns step_def covering_def)
next
  case (RetiredRuns k)
  with assms show ?thesis
    by (auto simp: step_def covering_def split: option.splits prod.splits)
next
  case Deliver
  with assms show ?thesis
    by (auto simp: step_def covering_def on_image_loaded_def update_progress_def Let_def
        split: list.splits option.splits)
qed

lemma run_covering:
  "covering s \<Longrightarrow> in_session evs \<Longrightarrow> covering (run evs s)"
  by (induction evs arbitrary: s) (auto simp: in_session_def step_covering)

lemma start_preload_image_folder:
  "image_folder (start_preload i s) = image_folder s"
  "disk (start_preload i s) = disk s"
  by (auto simp: start_preload_def Let_def split: option.splits prod.splits)

lemma load_folder_covering:
  assumes "folder \<noteq> []" "filter recognized (sort listing) \<noteq> []"
  shows "covering (load_folder folder listing s)"
proof -
  have "\<exists>s3. load_folder folder listing s = show_current_image (start_preload 0 s3)
      \<and> images s3 = filter recognized (sort listing) \<and> current_index s3 = 0
      \<and> image_folder s3 = folder"
    using assms
    by (simp add: load_folder_def Let_def) (rule exI, intro conjI, rule refl, simp_all)
  then obtain s3 where lf: "load_folder folder listing s = show_current_image (start_preload 0 s3)"
    and s3: "images s3 = filter recognized (sort listing)" "current_index s3 = 0"
      "image_folder s3 = folder"
    by blast
  have lt: "current_index (start_preload 0 s3) < length (images (start_preload 0 s3))"
    using assms by (simp add: start_preload_loader s3)
  show ?thesis
    using assms
    by (simp add: lf covering_def show_current_image_loader [OF lt] show_current_image_core
        start_preload_loader start_preload_image_folder PREFETCH_COUNT_def s3)
qed

text \<open>
  Claim C3. While it presents an item, \<open>show_current_image\<close> starts a new loader exactly
  when the cursor is at least \<open>loaded_up_to - PREFETCH_COUNT // 2\<close>, that is
  \<open>loaded_up_to - 10\<close>: the new loader starts at the old \<open>loaded_up_to\<close>, over the
  sequence on display, and \<open>loaded_up_to\<close> moves up by \<open>PREFETCH_COUNT = 20\<close>; otherwise
  the loader and \<open>loaded_up_to\<close> stay. In a session on more than ten images, under any
  schedule, the loader is the first one (from index 0, with \<open>loaded_up_to = 20\<close>) as long
  as fewer than ten labelling calls have been made, and after the tenth the cursor is 10,
  the loader is a new one covering the indices from 20 up to the smaller of 40 and the
  number of images, and \<open>loaded_up_to\<close> is 40.
\<close>

theorem supervisor_restart_policy:
  "(current_index s < length (images s) \<longrightarrow>
      loader (show_current_image s) =
        (if int (current_index s) \<ge> int (loaded_up_to s) - int (PREFETCH_COUNT div 2)
         then Some \<lparr>ld_images = images s, ld_folder = image_folder s,
                    start_index = loaded_up_to s, running = True,
                    thread = AtCheck (loaded_up_to s)\<rparr>
         else loader s)
    \<and> loaded_up_to (show_current_image s) =
        (if int (current_index s) \<ge> int (loaded_up_to s) - int (PREFETCH_COUNT div 2)
         then loaded_up_to s + PREFETCH_COUNT else loaded_up_to s))
   \<and> PREFETCH_COUNT = 20 \<and> PREFETCH_COUNT div 2 = 10
   \<and> (folder \<noteq> [] \<and> distinct listing \<and> 10 < length (filter recognized (sort listing))
       \<and> in_session evs \<longrightarrow>
        (length (labels_of evs) < 10 \<longrightarrow>
           loaded_up_to (run evs (load_folder folder listing t)) = 20
         \<and> (\<exists>l. loader (run evs (load_folder folder listing t)) = Some l \<and> start_index l = 0))
      \<and> (length (labels_of evs) = 10 \<longrightarrow>
           current_index (run evs (load_folder folder listing t)) = 10
         \<and> loaded_up_to (run evs (load_folder folder listing t)) = 40
         \<and> (\<exists>l. loader (run evs (load_folder folder listing t)) = Some l \<and> start_index l = 20
              \<and> ld_images l = filter recognized (sort listing)
              \<and> range_end l = min 40 (length (filter recognized (sort listing))))))"
proof (intro conjI impI)
  assume "current_index s < length (images s)"
  then show "loader (show_current_image s) =
        (if int (current_index s) \<ge> int (loaded_up_to s) - int (PREFETCH_COUNT div 2)
         then Some \<lparr>ld_images = images s, ld_folder = image_folder s,
                    start_index = loaded_up_to s, running = True,
                    thread = AtCheck (loaded_up_to s)\<rparr>
         else loader s)"
    and "loaded_up_to (show_current_image s) =
        (if int (current_index s) \<ge> int (loaded_up_to s) - int (PREFETCH_COUNT div 2)
         then loaded_up_to s + PREFETCH_COUNT else loaded_up_to s)"
    by (simp_all add: show_current_image_loader)
next
  show "PREFETCH_COUNT = 20" "PREFETCH_COUNT div 2 = 10" by (simp_all add: PREFETCH_COUNT_def)
next
  let ?imgs = "filter recognized (sort listing)"
  let ?s' = "run evs (load_folder folder listing t)"
  assume a: "folder \<noteq> [] \<and> distinct listing \<and> 10 < length ?imgs \<and> in_session evs"
  then have ne: "?imgs \<noteq> []" and n10: "10 < length ?imgs" by auto
  note lf = load_folder_labelling [OF _ _ ne, of folder t]
  from a have lab: "labelling (load_folder folder listing t)" by (simp add: lf)
  from labelling_run [OF lab] a
  have im: "images ?s' = ?imgs"
    and ci: "current_index ?s' = min (length ?imgs) (length (labels_of evs))"
    by (simp_all add: lf)
  have "covering ?s'"
    using a by (intro run_covering load_folder_covering ne) simp_all
  then obtain l where l: "loader ?s' = Some l" "start_index l + 20 = loaded_up_to ?s'"
    "ld_images l = ?imgs"
    and lut: "loaded_up_to ?s' = 20 * ((min (current_index ?s') (length ?imgs - 1) + 10) div 20 + 1)"
    by (auto simp: covering_def im PREFETCH_COUNT_def split: option.splits)
  {
    assume c: "length (labels_of evs) < 10"
    with n10 have "min (current_index ?s') (length ?imgs - 1) = length (labels_of evs)"
      unfolding ci by arith
    with lut c have "loaded_up_to ?s' = 20" by simp
    with l show "loaded_up_to ?s' = 20" "\<exists>l. loader ?s' = Some l \<and> start_index l = 0"
      by simp_all
  }
  {
    assume c: "length (labels_of evs) = 10"
    with n10 show c10: "current_index ?s' = 10" unfolding ci by arith
    with n10 have "min (current_index ?s') (length ?imgs - 1) = 10" by arith
    with lut have u: "loaded_up_to ?s' = 40" by simp
    then show "loaded_up_to ?s' = 40" .
    from u l show "\<exists>l. loader ?s' = Some l \<and> start_index l = 20 \<and> ld_images l = ?imgs
        \<and> range_end l = min 40 (length ?imgs)"
      by (simp add: range_end_def PREFETCH_COUNT_def)
  }
qed

theorem supervisor_restart_policy_witness:
  "current_index sample_cache_state < length (images sample_cache_state)
   \<and> loaded_up_to (show_current_image sample_cache_state) = 20
   \<and> ''/d'' \<noteq> [] \<and> distinct twenty_images
   \<and> 10 < length (filter recognized (sort twenty_images))
   \<and> in_session (replicate 10 PortraitClicked)
   \<and> length (labels_of (replicate 10 PortraitClicked)) = 10
   \<and> current_index (run (replicate 10 PortraitClicked)
        (load_folder ''/d'' twenty_images (init readable_all))) = 10
   \<and> loaded_up_to (run (replicate 10 PortraitClicked)
        (load_folder ''/d'' twenty_images (init readable_all))) = 40
   \<and> in_session (replicate 9 PortraitClicked)
   \<and> length (labels_of (replicate 9 PortraitClicked)) < 10
   \<and> loaded_up_to (run (replicate 9 PortraitClicked)
        (load_folder ''/d'' twenty_images (init readable_all))) = 20"
proof -
  have h0: "current_index sample_cache_state < length (images sample_cache_state)"
    "current_index sample_cache_state = 8" "loaded_up_to sample_cache_state = 0"
    by (simp_all add: sample_cache_state_def init_def)
  have h1: "''/d'' \<noteq> []" by simp
  have h2: "distinct twenty_images" by code_simp
  have h3: "10 < length (filter recognized (sort twenty_images))" by code_simp
  have h4: "in_session (replicate 10 PortraitClicked)" by code_simp
  have h5: "length (labels_of (replicate 10 PortraitClicked)) = 10" by code_simp
  have h6: "in_session (replicate 9 PortraitClicked)" by code_simp
  have h7: "length (labels_of (replicate 9 PortraitClicked)) < 10" by code_simp
  have p: "loaded_up_to (show_current_image sample_cache_state) = 20"
    using h0(1) supervisor_restart_policy [of sample_cache_state]
    by (simp add: h0(2,3))
  have q10: "current_index (run (replicate 10 PortraitClicked)
        (load_folder ''/d'' twenty_images (init readable_all))) = 10
      \<and> loaded_up_to (run (replicate 10 PortraitClicked)
        (load_folder ''/d'' twenty_images (init readable_all))) = 40"
    using h1 h2 h3 h4 h5
      supervisor_restart_policy [where folder = "''/d''" and listing = twenty_images
        and evs = "replicate 10 PortraitClicked" and t = "init readable_all"]
    by blast
  have q9: "loaded_up_to (run (replicate 9 PortraitClicked)
        (load_folder ''/d'' twenty_images (init readable_all))) = 20"
    using h1 h2 h3 h6 h7
      supervisor_restart_policy [where folder = "''/d''" and listing = twenty_images
        and evs = "replicate 9 PortraitClicked" and t = "init readable_all"]
    by blast
  show ?thesis
    using h0(1) h1 h2 h3 h4 h5 h6 h7 p q10 q9 by blast
qed

subsection \<open>Items that do not decode\<close>



lemma stop_ok [simp]: "loader_ok folder imgs (stop l) = loader_ok folder imgs l"
  by (simp add: loader_ok_def stop_def)

lemma prefetch_sound_update [simp]:
  "prefetch_sound (s\<lparr>current_index := a2\<rparr>) = prefetch_sound s"
  "prefetch_sound (s\<lparr>results := a3\<rparr>) = prefetch_sound s"
  "prefetch_sound (s\<lparr>loaded_up_to := a6\<rparr>) = prefetch_sound s"
  "prefetch_sound (s\<lparr>image_label := a8\<rparr>) = prefetch_sound s"
  "prefetch_sound (s\<lparr>name_label := a9\<rparr>) = prefetch_sound s"
  "prefetch_sound (s\<lparr>progress_label := b1\<rparr>) = prefetch_sound s"
  "prefetch_sound (s\<lparr>status_label := b2\<rparr>) = prefetch_sound s"
  "prefetch_sound (s\<lparr>portrait_btn := b3\<rparr>) = prefetch_sound s"
  "prefetch_sound (s\<lparr>landscape_btn := b4\<rparr>) = prefetch_sound s"
  "prefetch_sound (s\<lparr>written := b6\<rparr>) = prefetch_sound s"
  by (simp_all add: prefetch_sound_def all_loaders_def)




















end
